theory Spec2Isabelle
  imports Main "HOL-Library.Char_ord"
begin

section \<open>Strings\<close>

text \<open>
  Python's \<^verbatim>\<open>str\<close> is modelled as \<^typ>\<open>string\<close>; a \<^typ>\<open>char\<close> stands for a
  code point below 256.
\<close>

text \<open>\<^verbatim>\<open>s.startswith(p)\<close>\<close>

definition startswith :: "string \<Rightarrow> string \<Rightarrow> bool" where
  "startswith s p = (take (length p) s = p)"

text \<open>
  \<^verbatim>\<open>s.split(sep)\<close> for a separator of one character: the pieces between the
  occurrences of the separator, never an empty list.
\<close>

fun split_on :: "char \<Rightarrow> string \<Rightarrow> string list" where
  "split_on sep [] = [[]]"
| "split_on sep (c # cs) =
     (if c = sep then [] # split_on sep cs
      else (case split_on sep cs of
              [] \<Rightarrow> [[c]]
            | p # ps \<Rightarrow> (c # p) # ps))"

text \<open>\<^verbatim>\<open>s.strip(chars)\<close>: drops the characters of \<^verbatim>\<open>chars\<close> from both ends.\<close>

definition strip_chars :: "string \<Rightarrow> string \<Rightarrow> string" where
  "strip_chars chars s =
     rev (dropWhile (\<lambda>c. c \<in> set chars) (rev (dropWhile (\<lambda>c. c \<in> set chars) s)))"

section \<open>The regular expression of \<^verbatim>\<open>extract_email\<close>\<close>

text \<open>
  The pattern uses three constructs only: the word boundary \<^verbatim>\<open>\b\<close>, a literal
  character, and a bracket class under a greedy quantifier with a lower bound
  (\<^verbatim>\<open>+\<close> is \<^verbatim>\<open>{1,}\<close>).
\<close>

datatype class_item = Range char char | Single char

datatype token = WordBoundary | Literal char | AtLeast nat "class_item list"

fun in_item :: "class_item \<Rightarrow> char \<Rightarrow> bool" where
  "in_item (Range lo hi) c = (lo \<le> c \<and> c \<le> hi)"
| "in_item (Single x) c = (c = x)"

definition in_class :: "class_item list \<Rightarrow> char \<Rightarrow> bool" where
  "in_class items c = list_ex (\<lambda>i. in_item i c) items"

text \<open>
  \<^verbatim>\<open>\w\<close> of a \<^verbatim>\<open>str\<close> pattern: the alphanumeric code points and the underscore.
  Below 256 these are the ASCII letters and digits, and the Latin-1 letters, superscript
  digits and fractions.
\<close>

definition is_word :: "char \<Rightarrow> bool" where
  "is_word c = in_class
     [Range CHR ''0'' CHR ''9'', Range CHR ''A'' CHR ''Z'', Single CHR ''_'',
      Range CHR ''a'' CHR ''z'', Single CHR 0xAA, Range CHR 0xB2 CHR 0xB3,
      Single CHR 0xB5, Range CHR 0xB9 CHR 0xBA, Range CHR 0xBC CHR 0xBE,
      Range CHR 0xC0 CHR 0xD6, Range CHR 0xD8 CHR 0xF6, Range CHR 0xF8 CHR 0xFF] c"

text \<open>
  \<^verbatim>\<open>\b\<close> holds between the previous character and the rest of the text when exactly
  one side is a word character; the start and the end of the text count as non-word.
\<close>

definition word_opt :: "char option \<Rightarrow> bool" where
  "word_opt x = (case x of None \<Rightarrow> False | Some c \<Rightarrow> is_word c)"

definition first_char :: "string \<Rightarrow> char option" where
  "first_char s = (case s of [] \<Rightarrow> None | c # _ \<Rightarrow> Some c)"

definition at_boundary :: "char option \<Rightarrow> string \<Rightarrow> bool" where
  "at_boundary prev s = (word_opt prev \<noteq> word_opt (first_char s))"

text \<open>The character before position \<open>j\<close> of \<open>s\<close>, \<open>prev\<close> being the one before \<open>s\<close>.\<close>

definition prev_at :: "char option \<Rightarrow> string \<Rightarrow> nat \<Rightarrow> char option" where
  "prev_at prev s j = (if j = 0 then prev else Some (s ! (j - 1)))"

text \<open>
  A greedy quantifier tries the largest number of repetitions first and backtracks down
  to its lower bound: \<open>try_down f lo hi\<close> is the first success among
  \<open>f hi, f (hi - 1), \<dots>, f lo\<close>.
\<close>

primrec try_down :: "(nat \<Rightarrow> nat option) \<Rightarrow> nat \<Rightarrow> nat \<Rightarrow> nat option" where
  "try_down f lo 0 = (if lo = 0 then f 0 else None)"
| "try_down f lo (Suc h) =
     (if Suc h < lo then None
      else (case f (Suc h) of Some r \<Rightarrow> Some r | None \<Rightarrow> try_down f lo h))"

text \<open>
  \<open>match_here ts prev s\<close>: the backtracking match of the tokens at the start of \<open>s\<close>;
  the result is the number of characters matched.
\<close>

primrec match_here :: "token list \<Rightarrow> char option \<Rightarrow> string \<Rightarrow> nat option" where
  "match_here [] prev s = Some 0"
| "match_here (t # ts) prev s =
     (case t of
        WordBoundary \<Rightarrow> (if at_boundary prev s then match_here ts prev s else None)
      | Literal c \<Rightarrow>
          (case s of
             [] \<Rightarrow> None
           | x # xs \<Rightarrow> (if x = c then map_option Suc (match_here ts (Some x) xs) else None))
      | AtLeast lo items \<Rightarrow>
          try_down (\<lambda>j. map_option (\<lambda>r. j + r) (match_here ts (prev_at prev s j) (drop j s)))
            lo (length (takeWhile (in_class items) s)))"

text \<open>
  \<^verbatim>\<open>re.findall\<close>: the matches from left to right, without overlap. The scan resumes
  where a match ended (one character further after an empty match, which the pattern
  below cannot produce).
\<close>

function findall :: "token list \<Rightarrow> char option \<Rightarrow> string \<Rightarrow> string list" where
  "findall ts prev s =
     (case match_here ts prev s of
        Some n \<Rightarrow>
          take n s # (if s = [] then []
                      else findall ts (prev_at prev s (max 1 n)) (drop (max 1 n) s))
      | None \<Rightarrow> (case s of [] \<Rightarrow> [] | c # cs \<Rightarrow> findall ts (Some c) cs))"
  by pat_completeness auto
termination
  by (relation "measure (\<lambda>(ts, prev, s). length s)") auto

declare findall.simps [simp del]

text \<open>\<^verbatim>\<open>\b[A-Za-z0-9._%+-]+@[A-Za-z0-9.-]+\.[A-Z|a-z]{2,}\b\<close>\<close>

definition local_class :: "class_item list" where
  "local_class = [Range CHR ''A'' CHR ''Z'', Range CHR ''a'' CHR ''z'', Range CHR ''0'' CHR ''9'',
                  Single CHR ''.'', Single CHR ''_'', Single CHR ''%'', Single CHR ''+'',
                  Single CHR ''-'']"

definition domain_class :: "class_item list" where
  "domain_class = [Range CHR ''A'' CHR ''Z'', Range CHR ''a'' CHR ''z'', Range CHR ''0'' CHR ''9'',
                   Single CHR ''.'', Single CHR ''-'']"

definition tld_class :: "class_item list" where
  "tld_class = [Range CHR ''A'' CHR ''Z'', Single CHR ''|'', Range CHR ''a'' CHR ''z'']"

definition pattern :: "token list" where
  "pattern = [WordBoundary, AtLeast 1 local_class, Literal CHR ''@'', AtLeast 1 domain_class,
              Literal CHR ''.'', AtLeast 2 tld_class, WordBoundary]"

text \<open>The characters \<^verbatim>\<open>"<>[]()\<close> given to \<^verbatim>\<open>strip\<close>.\<close>

definition edge_chars :: string where
  "edge_chars = [CHR 0x22, CHR ''<'', CHR ''>'', CHR ''['', CHR '']'', CHR ''('', CHR '')'']"

definition extract_email :: "string \<Rightarrow> string option" where
  "extract_email text =
     (case findall pattern None text of
        [] \<Rightarrow> None
      | m # _ \<Rightarrow> Some (strip_chars edge_chars m))"

section \<open>Profile references\<close>

text \<open>
  The first lines of \<^verbatim>\<open>get_user_info_from_github_api\<close> that turn the reference into
  the handle; \<^verbatim>\<open>split('/')[-1]\<close> is the last piece of a list that is never empty.
\<close>

definition github_prefix :: string where
  "github_prefix = ''https://github.com/''"

definition username_of :: "string \<Rightarrow> string" where
  "username_of username_or_url =
     (if startswith username_or_url github_prefix
      then last (split_on CHR ''/'' username_or_url)
      else username_or_url)"

section \<open>Values, errors and the outside world\<close>

text \<open>
  The values that \<^verbatim>\<open>response.json()\<close> gives; \<open>JNull\<close> is also Python's
  \<^verbatim>\<open>None\<close>. A \<open>JObj\<close> lists the items of the dictionary; numbers are integers.
\<close>

datatype json = JNull | JBool bool | JNum int | JStr string | JArr "json list"
  | JObj "(string \<times> json) list"

datatype py_error = IndexError | KeyError | TypeError | AttributeError | ZeroDivisionError
  | JSONDecodeError | RequestException | RetryError

text \<open>The truth value of \<^verbatim>\<open>if x:\<close> and \<^verbatim>\<open>x or y\<close>.\<close>

fun truthy :: "json \<Rightarrow> bool" where
  "truthy JNull = False"
| "truthy (JBool b) = b"
| "truthy (JNum n) = (n \<noteq> 0)"
| "truthy (JStr s) = (s \<noteq> [])"
| "truthy (JArr xs) = (xs \<noteq> [])"
| "truthy (JObj kv) = (kv \<noteq> [])"

text \<open>\<^verbatim>\<open>d[k]\<close> with a string key.\<close>

fun subscript :: "json \<Rightarrow> string \<Rightarrow> py_error + json" where
  "subscript (JObj kv) k = (case map_of kv k of None \<Rightarrow> Inl KeyError | Some v \<Rightarrow> Inr v)"
| "subscript _ k = Inl TypeError"

text \<open>\<^verbatim>\<open>d.get(k, default)\<close>; only a dictionary has the method.\<close>

fun dict_get :: "json \<Rightarrow> string \<Rightarrow> json \<Rightarrow> py_error + json" where
  "dict_get (JObj kv) k d = Inr (case map_of kv k of None \<Rightarrow> d | Some v \<Rightarrow> v)"
| "dict_get _ k d = Inl AttributeError"

text \<open>\<^verbatim>\<open>x < k\<close> for an integer \<open>k\<close>; a boolean compares as 0 or 1.\<close>

fun less_than :: "json \<Rightarrow> int \<Rightarrow> py_error + bool" where
  "less_than (JNum n) k = Inr (n < k)"
| "less_than (JBool b) k = Inr ((if b then 1 else 0) < k)"
| "less_than _ k = Inl TypeError"

text \<open>
  A request is sent either through the session built by \<^verbatim>\<open>requests_retry_session\<close>
  (\<^verbatim>\<open>Retry(total=3, read=3, connect=3, backoff_factor=0.3,
  status_forcelist=(500, 502, 504))\<close> mounted on both schemes) or by a plain
  \<^verbatim>\<open>requests.get\<close>. The session sends a request again when the connection fails or
  the answer has one of the statuses of \<^verbatim>\<open>status_forcelist\<close>; \<^verbatim>\<open>raise_on_status\<close> is
  left at its default, so when the retries are used up and the status is still one of
  these, the session raises \<^verbatim>\<open>RetryError\<close> instead of returning the response.
\<close>

definition status_forcelist :: "int list" where
  "status_forcelist = [500, 502, 504]"

datatype transport = RetrySession | PlainGet

record request =
  via :: transport
  url :: string
  authorization :: string

text \<open>\<open>resp_json\<close> is \<open>None\<close> when the body is not JSON, where \<^verbatim>\<open>.json()\<close> raises.\<close>

record response =
  status_code :: int
  resp_text :: string
  resp_json :: "json option"

text \<open>
  The remote service: the answer at which the transport stops, given the requests sent
  before. For a plain request this is the only answer; for the retrying session it is the
  first answer with a status outside \<^verbatim>\<open>status_forcelist\<close>, or the answer to the last
  attempt. \<open>None\<close> is a connection that fails, for the session also at the last attempt.
\<close>

type_synonym net = "request list \<Rightarrow> request \<Rightarrow> response option"

text \<open>The calls of \<^verbatim>\<open>logger\<close>, one constructor for each message.\<close>

datatype log_entry =
    RemainingRequests json
  | SwitchedKey nat
  | RateLimitWait
  | FailedFetch string int
  | ReadingInput
  | Processing string string
  | SavingProgress
  | ErrorProcessing string py_error
  | WrittenOutput
  | MainError py_error

text \<open>
  What the program does to its surroundings: the requests sent, the seconds slept by
  \<^verbatim>\<open>time.sleep\<close>, the number of readings of the clock, and the log.
\<close>

record world =
  requests :: "request list"
  sleeps :: "nat list"
  clock_reads :: nat
  logged :: "log_entry list"

definition log_line :: "log_entry \<Rightarrow> world \<Rightarrow> world" where
  "log_line e w = w\<lparr>logged := logged w @ [e]\<rparr>"

text \<open>
  \<^verbatim>\<open>requests_retry_session().get(url, headers=headers)\<close> and
  \<^verbatim>\<open>requests.get(url, headers=headers)\<close>: a failed connection raises; the session also
  raises where it stops at a status of \<^verbatim>\<open>status_forcelist\<close>, and returns every other
  response; the plain request returns every response.
\<close>

definition http_get :: "net \<Rightarrow> transport \<Rightarrow> string \<Rightarrow> string \<Rightarrow> world
    \<Rightarrow> (py_error + response) \<times> world" where
  "http_get nt tr u auth w =
     (let rq = \<lparr>via = tr, url = u, authorization = auth\<rparr>
      in ((case nt (requests w) rq of
             None \<Rightarrow> Inl RequestException
           | Some r \<Rightarrow>
               if tr = RetrySession \<and> status_code r \<in> set status_forcelist
               then Inl RetryError
               else Inr r),
          w\<lparr>requests := requests w @ [rq]\<rparr>))"

definition response_json :: "response \<Rightarrow> py_error + json" where
  "response_json r = (case resp_json r of None \<Rightarrow> Inl JSONDecodeError | Some d \<Rightarrow> Inr d)"

section \<open>\<^verbatim>\<open>GitHubApiHandler\<close>\<close>

text \<open>
  The class of \<^verbatim>\<open>cloud03.py\<close> has four fields; the one of \<^verbatim>\<open>cloud02.py\<close> adds
  \<^verbatim>\<open>failed_attempts\<close>. An exception leaves the fields as they were when it was
  raised, so every method returns the handler with its result.
\<close>

record GitHubApiHandler03 =
  api_keys :: "string list"
  current_key_index :: nat
  request_count :: nat
  max_requests_per_key :: nat

record GitHubApiHandler = GitHubApiHandler03 +
  failed_attempts :: nat

definition init_handler :: "string list \<Rightarrow> GitHubApiHandler" where
  "init_handler keys = \<lparr>api_keys = keys, current_key_index = 0, request_count = 0,
     max_requests_per_key = 3650, failed_attempts = 0\<rparr>"

definition init_handler03 :: "string list \<Rightarrow> GitHubApiHandler03" where
  "init_handler03 keys = \<lparr>api_keys = keys, current_key_index = 0, request_count = 0,
     max_requests_per_key = 3650\<rparr>"

definition get_headers :: "'a GitHubApiHandler03_scheme \<Rightarrow> py_error + string" where
  "get_headers h =
     (if current_key_index h < length (api_keys h)
      then Inr (''token '' @ api_keys h ! current_key_index h)
      else Inl IndexError)"

definition rate_limit_url :: string where
  "rate_limit_url = ''https://api.github.com/rate_limit''"

definition get_remaining_requests :: "net \<Rightarrow> 'a GitHubApiHandler03_scheme \<Rightarrow> world
    \<Rightarrow> (py_error + json) \<times> world" where
  "get_remaining_requests nt h w =
     (case get_headers h of
        Inl e \<Rightarrow> (Inl e, w)
      | Inr headers \<Rightarrow>
          (case http_get nt RetrySession rate_limit_url headers w of
             (Inl e, w1) \<Rightarrow> (Inl e, w1)
           | (Inr response, w1) \<Rightarrow>
               if status_code response = 200
               then (case response_json response of
                       Inl e \<Rightarrow> (Inl e, w1)
                     | Inr rate_limit_data \<Rightarrow>
                         (case subscript rate_limit_data ''rate'' of
                            Inl e \<Rightarrow> (Inl e, w1)
                          | Inr rate \<Rightarrow> (subscript rate ''remaining'', w1)))
               else (Inr (JNum 0), w1)))"

text \<open>
  \<^verbatim>\<open>check_and_switch_key\<close> of \<^verbatim>\<open>cloud02.py\<close>. The first component of the result is
  the exception raised, if any.
\<close>

definition check_and_switch_key :: "net \<Rightarrow> GitHubApiHandler \<Rightarrow> world
    \<Rightarrow> py_error option \<times> GitHubApiHandler \<times> world" where
  "check_and_switch_key nt h w =
     (case get_remaining_requests nt h w of
        (Inl e, w1) \<Rightarrow> (Some e, h, w1)
      | (Inr remaining_requests, w1) \<Rightarrow>
          (let w2 = log_line (RemainingRequests remaining_requests) w1
           in case less_than remaining_requests 10 of
                Inl e \<Rightarrow> (Some e, h, w2)
              | Inr False \<Rightarrow> (None, h, w2)
              | Inr True \<Rightarrow>
                  if length (api_keys h) = 0 then (Some ZeroDivisionError, h, w2)
                  else
                    (let h1 = h\<lparr>current_key_index :=
                                   (current_key_index h + 1) mod length (api_keys h),
                                 request_count := 0,
                                 failed_attempts := failed_attempts h + 1\<rparr>;
                         w3 = log_line (SwitchedKey (current_key_index h1 + 1)) w2
                     in if failed_attempts h1 \<ge> 18
                        then (None, h1\<lparr>failed_attempts := 0\<rparr>,
                              (log_line RateLimitWait w3)\<lparr>sleeps := sleeps w3 @ [3900]\<rparr>)
                        else (None, h1, w3))))"

text \<open>\<^verbatim>\<open>check_and_switch_key\<close> of \<^verbatim>\<open>cloud03.py\<close>: no counter and no wait.\<close>

definition check_and_switch_key03 :: "net \<Rightarrow> GitHubApiHandler03 \<Rightarrow> world
    \<Rightarrow> py_error option \<times> GitHubApiHandler03 \<times> world" where
  "check_and_switch_key03 nt h w =
     (case get_remaining_requests nt h w of
        (Inl e, w1) \<Rightarrow> (Some e, h, w1)
      | (Inr remaining_requests, w1) \<Rightarrow>
          (let w2 = log_line (RemainingRequests remaining_requests) w1
           in case less_than remaining_requests 10 of
                Inl e \<Rightarrow> (Some e, h, w2)
              | Inr False \<Rightarrow> (None, h, w2)
              | Inr True \<Rightarrow>
                  if length (api_keys h) = 0 then (Some ZeroDivisionError, h, w2)
                  else
                    (let h1 = h\<lparr>current_key_index :=
                                   (current_key_index h + 1) mod length (api_keys h),
                                 request_count := 0\<rparr>
                     in (None, h1, log_line (SwitchedKey (current_key_index h1 + 1)) w2))))"

definition user_url :: "string \<Rightarrow> string" where
  "user_url username = ''https://api.github.com/users/'' @ username"

definition readme_url :: "string \<Rightarrow> string" where
  "readme_url username =
     ''https://raw.githubusercontent.com/'' @ username @ ''/'' @ username @ ''/main/README.md''"

definition get_email_from_readme :: "net \<Rightarrow> string \<Rightarrow> string \<Rightarrow> world
    \<Rightarrow> (py_error + json) \<times> world" where
  "get_email_from_readme nt username headers w =
     (case http_get nt PlainGet (readme_url username) headers w of
        (Inl e, w1) \<Rightarrow> (Inl e, w1)
      | (Inr response, w1) \<Rightarrow>
          if status_code response = 200
          then (Inr (case extract_email (resp_text response) of
                       None \<Rightarrow> JNull | Some a \<Rightarrow> JStr a), w1)
          else (Inr JNull, w1))"

text \<open>
  The part of \<^verbatim>\<open>get_user_info_from_github_api\<close> after the check of the key, the
  same in both files.
\<close>

definition fetch_user_info :: "net \<Rightarrow> 'a GitHubApiHandler03_scheme \<Rightarrow> world \<Rightarrow> string
    \<Rightarrow> (py_error + json) \<times> 'a GitHubApiHandler03_scheme \<times> world" where
  "fetch_user_info nt h w username_or_url =
     (case get_headers h of
        Inl e \<Rightarrow> (Inl e, h, w)
      | Inr headers \<Rightarrow>
          (let h1 = h\<lparr>request_count := request_count h + 1\<rparr>;
               username = username_of username_or_url
           in case http_get nt RetrySession (user_url username) headers w of
                (Inl e, w1) \<Rightarrow> (Inl e, h1, w1)
              | (Inr response, w1) \<Rightarrow>
                  if status_code response \<noteq> 200
                  then (Inr JNull, h1,
                        log_line (FailedFetch username_or_url (status_code response)) w1)
                  else
                    (case response_json response of
                       Inl e \<Rightarrow> (Inl e, h1, w1)
                     | Inr user_data \<Rightarrow>
                         (case dict_get user_data ''email'' (JStr []) of
                            Inl e \<Rightarrow> (Inl e, h1, w1)
                          | Inr email \<Rightarrow>
                              if truthy email then (Inr email, h1, w1)
                              else (case get_email_from_readme nt username headers w1 of
                                      (r, w2) \<Rightarrow> (r, h1, w2))))))"

definition get_user_info_from_github_api :: "net \<Rightarrow> GitHubApiHandler \<Rightarrow> world \<Rightarrow> string
    \<Rightarrow> (py_error + json) \<times> GitHubApiHandler \<times> world" where
  "get_user_info_from_github_api nt h w username_or_url =
     (case check_and_switch_key nt h w of
        (Some e, h1, w1) \<Rightarrow> (Inl e, h1, w1)
      | (None, h1, w1) \<Rightarrow> fetch_user_info nt h1 w1 username_or_url)"

definition get_user_info_from_github_api03 :: "net \<Rightarrow> GitHubApiHandler03 \<Rightarrow> world \<Rightarrow> string
    \<Rightarrow> (py_error + json) \<times> GitHubApiHandler03 \<times> world" where
  "get_user_info_from_github_api03 nt h w username_or_url =
     (case check_and_switch_key03 nt h w of
        (Some e, h1, w1) \<Rightarrow> (Inl e, h1, w1)
      | (None, h1, w1) \<Rightarrow> fetch_user_info nt h1 w1 username_or_url)"

text \<open>
  The profile query and the query for the document, as \<^verbatim>\<open>get_user_info_from_github_api\<close>
  and \<^verbatim>\<open>get_email_from_readme\<close> send them with the key of the handler.
\<close>

definition profile_request :: "'a GitHubApiHandler03_scheme \<Rightarrow> string \<Rightarrow> request" where
  "profile_request h username_or_url =
     \<lparr>via = RetrySession, url = user_url (username_of username_or_url),
      authorization = ''token '' @ api_keys h ! current_key_index h\<rparr>"

definition readme_request :: "'a GitHubApiHandler03_scheme \<Rightarrow> string \<Rightarrow> request" where
  "readme_request h username_or_url =
     \<lparr>via = PlainGet, url = readme_url (username_of username_or_url),
      authorization = ''token '' @ api_keys h ! current_key_index h\<rparr>"

section \<open>The batch runner\<close>

text \<open>
  The two tables are read and written as lists of rows; the output file may not exist
  yet. \<open>Status\<close> is \<open>None\<close> where the column or the cell is missing.
\<close>

record input_row =
  Username :: string
  User_ID :: string
  Profile_URL :: string
  Status :: "string option"

record output_row =
  out_Username :: string
  out_User_ID :: string
  out_Profile_URL :: string
  out_Email :: json

record files =
  input_csv :: "input_row list"
  output_csv :: "output_row list option"

text \<open>The local variables of \<^verbatim>\<open>main\<close> in \<^verbatim>\<open>cloud02.py\<close>, with the files.\<close>

record runner =
  github_api_handler :: GitHubApiHandler
  env :: world
  input_df :: "input_row list"
  output_df :: "output_row list"
  processed_profiles :: "string set"
  new_rows :: "output_row list"
  last_save_time :: int
  disk :: files

text \<open>
  \<^verbatim>\<open>datetime.now()\<close>: the clock is a sequence of readings in microseconds, one taken
  at each call.
\<close>

definition now :: "(nat \<Rightarrow> int) \<Rightarrow> world \<Rightarrow> int \<times> world" where
  "now clk w = (clk (clock_reads w), w\<lparr>clock_reads := Suc (clock_reads w)\<rparr>)"

text \<open>\<^verbatim>\<open>timedelta(minutes=30)\<close> in microseconds.\<close>

definition save_interval :: int where
  "save_interval = 30 * 60 * 1000000"

text \<open>Lines 130 to 138: what is done with the result of the lookup.\<close>

definition record_result :: "nat \<Rightarrow> input_row \<Rightarrow> json \<Rightarrow> runner \<Rightarrow> runner" where
  "record_result index r email st =
     (if truthy email
      then st\<lparr>new_rows := new_rows st @
                  [\<lparr>out_Username = Username r, out_User_ID = User_ID r,
                    out_Profile_URL = Profile_URL r, out_Email = email\<rparr>],
              processed_profiles := insert (Profile_URL r) (processed_profiles st),
              input_df := (input_df st)[index := (input_df st ! index)\<lparr>Status := Some ''Done''\<rparr>]\<rparr>
      else st)"

text \<open>Lines 141 to 149: the save every 30 minutes.\<close>

definition save_progress :: "(nat \<Rightarrow> int) \<Rightarrow> runner \<Rightarrow> runner" where
  "save_progress clk st =
     (case now clk (env st) of
        (t, w1) \<Rightarrow>
          if t - last_save_time st > save_interval
          then
            (let w2 = log_line SavingProgress w1;
                 st1 = (if new_rows st \<noteq> []
                        then st\<lparr>output_df := output_df st @ new_rows st,
                                disk := (disk st)\<lparr>output_csv := Some (output_df st @ new_rows st)\<rparr>,
                                new_rows := []\<rparr>
                        else st);
                 st2 = st1\<lparr>disk := (disk st1)\<lparr>input_csv := input_df st1\<rparr>\<rparr>
             in case now clk w2 of
                  (t2, w3) \<Rightarrow> st2\<lparr>last_save_time := t2, env := w3\<rparr>)
          else st\<lparr>env := w1\<rparr>)"

text \<open>
  The body of the loop for the row at \<open>index\<close>. Every exception of the lookup is caught
  by the \<^verbatim>\<open>except Exception\<close> of the body.
\<close>

definition process_row :: "net \<Rightarrow> (nat \<Rightarrow> int) \<Rightarrow> runner \<Rightarrow> nat \<times> input_row \<Rightarrow> runner" where
  "process_row nt clk st ir =
     (case ir of
        (index, r) \<Rightarrow>
          if Status r = Some ''Done'' \<or> Profile_URL r \<in> processed_profiles st then st
          else
            (let w0 = log_line (Processing (Username r) (Profile_URL r)) (env st)
             in case get_user_info_from_github_api nt (github_api_handler st) w0 (Profile_URL r) of
                  (Inl e, h, w) \<Rightarrow>
                    st\<lparr>github_api_handler := h,
                       env := log_line (ErrorProcessing (Profile_URL r) e) w\<rparr>
                | (Inr email, h, w) \<Rightarrow>
                    save_progress clk
                      (record_result index r email (st\<lparr>github_api_handler := h, env := w\<rparr>))))"

text \<open>Lines 155 to 159: the save after the loop.\<close>

definition final_save :: "runner \<Rightarrow> runner" where
  "final_save st =
     (let st1 = (if new_rows st \<noteq> []
                 then st\<lparr>output_df := output_df st @ new_rows st,
                         disk := (disk st)\<lparr>output_csv := Some (output_df st @ new_rows st)\<rparr>\<rparr>
                 else st)
      in st1\<lparr>disk := (disk st1)\<lparr>input_csv := input_df st1\<rparr>\<rparr>)"

text \<open>The rows of the output file; none where the file does not exist.\<close>

definition existing_rows :: "files \<Rightarrow> output_row list" where
  "existing_rows fs = (case output_csv fs of None \<Rightarrow> [] | Some rows \<Rightarrow> rows)"

text \<open>Lines 102 to 118: the state in which the loop starts.\<close>

definition startup :: "string list \<Rightarrow> int \<Rightarrow> files \<Rightarrow> world \<Rightarrow> runner" where
  "startup keys t0 fs w =
     \<lparr>github_api_handler = init_handler keys,
      env = log_line ReadingInput w,
      input_df = input_csv fs,
      output_df = existing_rows fs,
      processed_profiles =
        (case output_csv fs of None \<Rightarrow> {} | Some rows \<Rightarrow> set (map out_Profile_URL rows)),
      new_rows = [],
      last_save_time = t0,
      disk = fs\<rparr>"

definition run_rows :: "net \<Rightarrow> (nat \<Rightarrow> int) \<Rightarrow> runner \<Rightarrow> (nat \<times> input_row) list \<Rightarrow> runner" where
  "run_rows nt clk st irs = foldl (process_row nt clk) st irs"

text \<open>
  \<^verbatim>\<open>main\<close> of \<^verbatim>\<open>cloud02.py\<close>. \<open>keys_env\<close> is the environment variable
  \<^verbatim>\<open>MY_GITHUB_API_KEYS\<close>; where it is not set, the \<^verbatim>\<open>KeyError\<close> is caught by the
  outer handler and nothing is processed.
\<close>

definition main02 :: "net \<Rightarrow> (nat \<Rightarrow> int) \<Rightarrow> string option \<Rightarrow> files \<Rightarrow> world \<Rightarrow> files \<times> world" where
  "main02 nt clk keys_env fs w =
     (case now clk w of
        (t0, w1) \<Rightarrow>
          (case keys_env of
             None \<Rightarrow> (fs, log_line (MainError KeyError) w1)
           | Some ks \<Rightarrow>
               (let st = final_save
                           (run_rows nt clk (startup (split_on CHR '','' ks) t0 fs w1)
                              (enumerate 0 (input_csv fs)))
                in (disk st, log_line WrittenOutput (env st)))))"

text \<open>
  \<^verbatim>\<open>main\<close> of \<^verbatim>\<open>cloud03.py\<close>: every row is looked up, and the output is written
  once, after the loop.
\<close>

definition process_row03 :: "net \<Rightarrow> GitHubApiHandler03 \<times> world \<times> output_row list \<Rightarrow> input_row
    \<Rightarrow> GitHubApiHandler03 \<times> world \<times> output_row list" where
  "process_row03 nt st r =
     (case st of
        (h0, w, output_data) \<Rightarrow>
          (let w0 = log_line (Processing (Username r) (Profile_URL r)) w
           in case get_user_info_from_github_api03 nt h0 w0 (Profile_URL r) of
                (Inl e, h, w1) \<Rightarrow> (h, log_line (ErrorProcessing (Profile_URL r) e) w1, output_data)
              | (Inr email, h, w1) \<Rightarrow>
                  (h, w1,
                   if truthy email
                   then output_data @
                          [\<lparr>out_Username = Username r, out_User_ID = User_ID r,
                            out_Profile_URL = Profile_URL r, out_Email = email\<rparr>]
                   else output_data)))"

definition main03 :: "net \<Rightarrow> string option \<Rightarrow> files \<Rightarrow> world \<Rightarrow> files \<times> world" where
  "main03 nt keys_env fs w =
     (case keys_env of
        None \<Rightarrow> (fs, log_line (MainError KeyError) w)
      | Some ks \<Rightarrow>
          (case foldl (process_row03 nt)
                  (init_handler03 (split_on CHR '','' ks), log_line ReadingInput w, [])
                  (input_csv fs) of
             (h, w1, output_data) \<Rightarrow>
               (fs\<lparr>output_csv := Some output_data\<rparr>, log_line WrittenOutput w1)))"

section \<open>What the pattern matches\<close>

text \<open>The last character of \<open>a\<close>, or \<open>p\<close> where \<open>a\<close> is empty.\<close>

definition last_or :: "char option \<Rightarrow> string \<Rightarrow> char option" where
  "last_or p a = (if a = [] then p else Some (last a))"

text \<open>
  The strings that a list of tokens can match, whatever the order of the attempts:
  \<open>shape ts p u r\<close> holds when the tokens match exactly \<open>u\<close>, with \<open>p\<close> before it and
  \<open>r\<close> after it.
\<close>

primrec shape :: "token list \<Rightarrow> char option \<Rightarrow> string \<Rightarrow> string \<Rightarrow> bool" where
  "shape [] p u r = (u = [])"
| "shape (t # ts) p u r =
     (case t of
        WordBoundary \<Rightarrow> at_boundary p (u @ r) \<and> shape ts p u r
      | Literal c \<Rightarrow> (\<exists>u'. u = c # u' \<and> shape ts (Some c) u' r)
      | AtLeast lo items \<Rightarrow>
          (\<exists>a b. u = a @ b \<and> lo \<le> length a \<and> list_all (in_class items) a \<and>
                 shape ts (last_or p a) b r))"

text \<open>
  The address grammar in the words of the specification: one or more of letters, digits,
  \<^verbatim>\<open>.\<close>, \<^verbatim>\<open>_\<close>, \<^verbatim>\<open>%\<close>, \<^verbatim>\<open>+\<close>, \<^verbatim>\<open>-\<close> before \<^verbatim>\<open>@\<close>, one or more of letters, digits,
  \<^verbatim>\<open>.\<close>, \<^verbatim>\<open>-\<close> after it, and a final dot followed by at least two letters.
\<close>

definition letter :: "char \<Rightarrow> bool" where
  "letter c = (CHR ''A'' \<le> c \<and> c \<le> CHR ''Z'' \<or> CHR ''a'' \<le> c \<and> c \<le> CHR ''z'')"

definition digit :: "char \<Rightarrow> bool" where
  "digit c = (CHR ''0'' \<le> c \<and> c \<le> CHR ''9'')"

definition local_char :: "char \<Rightarrow> bool" where
  "local_char c = (letter c \<or> digit c \<or> c \<in> set ''._%+-'')"

definition domain_char :: "char \<Rightarrow> bool" where
  "domain_char c = (letter c \<or> digit c \<or> c \<in> set ''.-'')"

definition is_address :: "string \<Rightarrow> bool" where
  "is_address u =
     (\<exists>l d t. u = l @ ''@'' @ d @ ''.'' @ t \<and>
        l \<noteq> [] \<and> list_all local_char l \<and>
        d \<noteq> [] \<and> list_all domain_char d \<and>
        2 \<le> length t \<and> list_all letter t)"

text \<open>The same with the three classes as the pattern has them.\<close>

definition pattern_text :: "string \<Rightarrow> bool" where
  "pattern_text u =
     (\<exists>l d t. u = l @ ''@'' @ d @ ''.'' @ t \<and>
        l \<noteq> [] \<and> list_all (in_class local_class) l \<and>
        d \<noteq> [] \<and> list_all (in_class domain_class) d \<and>
        2 \<le> length t \<and> list_all (in_class tld_class) t)"

text \<open>
  Position \<open>k\<close> of a text is a word boundary when exactly one of the characters before
  and after it is a word character. A span of \<open>n\<close> characters from position \<open>i\<close> is an
  address span when it matches the grammar and begins and ends at a word boundary.
\<close>

definition word_boundary :: "string \<Rightarrow> nat \<Rightarrow> bool" where
  "word_boundary text k =
     ((0 < k \<and> k \<le> length text \<and> is_word (text ! (k - 1))) \<noteq>
      (k < length text \<and> is_word (text ! k)))"

definition address_span :: "string \<Rightarrow> nat \<Rightarrow> nat \<Rightarrow> bool" where
  "address_span text i n =
     (i + n \<le> length text \<and> is_address (take n (drop i text)) \<and>
      word_boundary text i \<and> word_boundary text (i + n))"

definition pattern_span :: "string \<Rightarrow> nat \<Rightarrow> nat \<Rightarrow> bool" where
  "pattern_span text i n =
     (i + n \<le> length text \<and> pattern_text (take n (drop i text)) \<and>
      word_boundary text i \<and> word_boundary text (i + n))"

text \<open>
  The call of the lookup for a row, at line 129 of \<^verbatim>\<open>cloud02.py\<close> and line 110 of
  \<^verbatim>\<open>cloud03.py\<close>, after the \<^verbatim>\<open>Processing\<close> line has been logged.
\<close>

definition lookup_row :: "net \<Rightarrow> runner \<Rightarrow> input_row \<Rightarrow> (py_error + json) \<times> GitHubApiHandler \<times> world" where
  "lookup_row nt st r =
     get_user_info_from_github_api nt (github_api_handler st)
       (log_line (Processing (Username r) (Profile_URL r)) (env st)) (Profile_URL r)"

definition lookup_row03 :: "net \<Rightarrow> GitHubApiHandler03 \<times> world \<times> output_row list \<Rightarrow> input_row
    \<Rightarrow> (py_error + json) \<times> GitHubApiHandler03 \<times> world" where
  "lookup_row03 nt st r =
     get_user_info_from_github_api03 nt (fst st)
       (log_line (Processing (Username r) (Profile_URL r)) (fst (snd st))) (Profile_URL r)"

text \<open>
  Two runs of \<^verbatim>\<open>cloud02.py\<close> one after the other: the second starts from the files
  that the first has left.
\<close>

definition run_twice :: "net \<Rightarrow> (nat \<Rightarrow> int) \<Rightarrow> net \<Rightarrow> (nat \<Rightarrow> int) \<Rightarrow> string option
    \<Rightarrow> files \<Rightarrow> world \<Rightarrow> files \<times> world" where
  "run_twice nt1 clk1 nt2 clk2 keys_env fs w =
     (case main02 nt1 clk1 keys_env fs w of
        (fs1, w1) \<Rightarrow> main02 nt2 clk2 keys_env fs1 w1)"

section \<open>What the runner has attempted\<close>

text \<open>
  The lookups attempted so far are the \<^verbatim>\<open>Processing\<close> lines of the log: the line is
  written just before each call of the lookup.
\<close>

definition is_processing :: "log_entry \<Rightarrow> bool" where
  "is_processing e = (case e of Processing u p \<Rightarrow> True | _ \<Rightarrow> False)"

definition attempts :: "world \<Rightarrow> log_entry list" where
  "attempts w = filter is_processing (logged w)"

text \<open>The output rows that a state of the runner holds, saved or not.\<close>

definition all_rows :: "runner \<Rightarrow> output_row list" where
  "all_rows st = output_df st @ new_rows st"

section \<open>Fixtures\<close>

text \<open>An empty history of effects, and two credentials.\<close>

definition world0 :: world where
  "world0 = \<lparr>requests = [], sleeps = [], clock_reads = 0, logged = []\<rparr>"

definition two_keys :: GitHubApiHandler where
  "two_keys = init_handler [''k1'', ''k2'']"

text \<open>A service that answers every request with status 403.\<close>

definition forbidden_net :: net where
  "forbidden_net hist rq = Some \<lparr>status_code = 403, resp_text = [], resp_json = None\<rparr>"

text \<open>One call of \<^verbatim>\<open>check_and_switch_key\<close>, keeping the handler and the world.\<close>

definition quota_check :: "net \<Rightarrow> GitHubApiHandler \<times> world \<Rightarrow> GitHubApiHandler \<times> world" where
  "quota_check nt s = snd (check_and_switch_key nt (fst s) (snd s))"

text \<open>A service that reports 5000 remaining requests to every request.\<close>

definition plenty_net :: net where
  "plenty_net hist rq =
     Some \<lparr>status_code = 200, resp_text = [],
           resp_json = Some (JObj [(''rate'', JObj [(''remaining'', JNum 5000)])])\<rparr>"

text \<open>
  A service with plenty of quota that answers the profile query with status 200 and the
  given JSON. The third endpoint answers \<open>readme_retried\<close> to a request sent through
  the retrying session and \<open>readme_once\<close> to a plain request: a server whose first
  answer is \<open>readme_once\<close> with a status of the retry list and whose next answer is
  \<open>readme_retried\<close> behaves so.
\<close>

definition service :: "json \<Rightarrow> response \<Rightarrow> response \<Rightarrow> net" where
  "service user_data readme_retried readme_once hist rq =
     (if url rq = rate_limit_url then plenty_net hist rq
      else if startswith (url rq) ''https://api.github.com/users/''
      then Some \<lparr>status_code = 200, resp_text = [], resp_json = Some user_data\<rparr>
      else if via rq = RetrySession then Some readme_retried
      else Some readme_once)"

definition readme_ok :: response where
  "readme_ok = \<lparr>status_code = 200, resp_text = ''Contact: <alice@example.org>'',
                 resp_json = None\<rparr>"

definition readme_502 :: response where
  "readme_502 = \<lparr>status_code = 502, resp_text = [], resp_json = None\<rparr>"

definition profile_with_email :: json where
  "profile_with_email = JObj [(''login'', JStr ''alice''), (''email'', JStr ''alice@example.org'')]"

definition profile_without_email :: json where
  "profile_without_email = JObj [(''login'', JStr ''alice''), (''email'', JNull)]"


text \<open>
  A service that fails to connect for the profile of \<^verbatim>\<open>bob\<close> and answers every other
  request as the service with the profile of \<^verbatim>\<open>alice\<close> does.
\<close>

definition moody_net :: net where
  "moody_net hist rq =
     (if url rq = user_url ''bob'' then None
      else service profile_with_email readme_ok readme_ok hist rq)"

definition row_bob :: input_row where
  "row_bob = \<lparr>Username = ''bob'', User_ID = ''1'', Profile_URL = ''https://github.com/bob'',
              Status = None\<rparr>"

definition row_alice :: input_row where
  "row_alice = \<lparr>Username = ''alice'', User_ID = ''2'',
                Profile_URL = ''https://github.com/alice'', Status = None\<rparr>"

definition out_alice :: output_row where
  "out_alice = \<lparr>out_Username = ''alice'', out_User_ID = ''2'',
                 out_Profile_URL = ''https://github.com/alice'',
                 out_Email = JStr ''alice@example.org''\<rparr>"

definition files0 :: files where
  "files0 = \<lparr>input_csv = [row_bob, row_alice], output_csv = None\<rparr>"

text \<open>A clock that stands still, and one that is read more than 30 minutes after 0.\<close>

definition still_clock :: "nat \<Rightarrow> int" where
  "still_clock n = 0"

definition late_clock :: "nat \<Rightarrow> int" where
  "late_clock n = 1800000001 + int n"

text \<open>The runner as it starts at time 0, and with one unsaved row.\<close>

definition state0 :: runner where
  "state0 = startup [''k1'', ''k2''] 0 files0 world0"

definition state1 :: runner where
  "state1 = record_result 1 row_alice (JStr ''alice@example.org'') state0"

text \<open>
  A service that keeps answering 502 to every request, and one that has plenty of quota
  and keeps answering 502 to every other request.
\<close>

definition bad_gateway :: response where
  "bad_gateway = \<lparr>status_code = 502, resp_text = [], resp_json = None\<rparr>"

definition bad_gateway_net :: net where
  "bad_gateway_net hist rq = Some bad_gateway"

definition profile_502_net :: net where
  "profile_502_net hist rq =
     (if url rq = rate_limit_url then plenty_net hist rq else Some bad_gateway)"

text \<open>
  A clock that shows 0 at its first two readings and more than 30 minutes afterwards; an
  input file with one profile that resolves followed by three that fail to connect; and
  the runner as \<^verbatim>\<open>main\<close> starts it on this file with this clock.
\<close>

definition step_clock :: "nat \<Rightarrow> int" where
  "step_clock n = (if n \<le> 1 then 0 else 1800000001)"

definition files1 :: files where
  "files1 = \<lparr>input_csv = [row_alice, row_bob, row_bob, row_bob], output_csv = None\<rparr>"

definition streak_start :: runner where
  "streak_start =
     startup [''k1'', ''k2''] (fst (now step_clock world0)) files1 (snd (now step_clock world0))"

text \<open>A service that has plenty of quota and answers 404 to every other request.\<close>

definition not_found :: response where
  "not_found = \<lparr>status_code = 404, resp_text = [], resp_json = None\<rparr>"

definition profile_404_net :: net where
  "profile_404_net hist rq =
     (if url rq = rate_limit_url then plenty_net hist rq else Some not_found)"

section \<open>Handles\<close>

lemma split_on_nonempty: "split_on sep s \<noteq> []"
  by (induction s) (auto split: list.splits)

lemma split_on_no_sep: "sep \<notin> set s \<Longrightarrow> split_on sep s = [s]"
  by (induction s) auto

lemma split_on_append:
  "split_on sep (xs @ sep # ys) = split_on sep xs @ split_on sep ys"
proof (induction xs)
  case Nil
  show ?case by simp
next
  case (Cons x xs)
  then show ?case
    using split_on_nonempty [of sep xs] by (cases "split_on sep xs") auto
qed

lemma last_split_on:
  "last (split_on sep s) = rev (takeWhile (\<lambda>c. c \<noteq> sep) (rev s))"
proof (cases "sep \<in> set s")
  case False
  then have tw: "takeWhile (\<lambda>c. c \<noteq> sep) (rev s) = rev s"
    by (subst takeWhile_eq_all_conv) auto
  show ?thesis
    unfolding split_on_no_sep [OF False] tw by simp
next
  case True
  then obtain a b where s: "s = a @ sep # b" and b: "sep \<notin> set b"
    by (auto dest: split_list_last)
  have "takeWhile (\<lambda>c. c \<noteq> sep) (rev b @ sep # rev a) = rev b"
    using b by (auto simp: takeWhile_tail)
  with s b show ?thesis
    by (simp add: split_on_append split_on_no_sep)
qed

lemma username_of_prefix: "username_of (github_prefix @ s) = last (split_on CHR ''/'' s)"
proof -
  have "github_prefix @ s = ''https://github.com'' @ CHR ''/'' # s"
    by (simp add: github_prefix_def)
  then have "last (split_on CHR ''/'' (github_prefix @ s)) = last (split_on CHR ''/'' s)"
    by (simp only: split_on_append) (simp add: split_on_nonempty)
  then show ?thesis by (simp add: username_of_def startswith_def)
qed

text \<open>
  C8, as amended. A reference that does not start with \<^verbatim>\<open>https://github.com/\<close> is
  the handle as it is. The handle of the prefix followed by \<open>s\<close> is the part of \<open>s\<close>
  after its last \<^verbatim>\<open>/\<close>; it is \<open>s\<close> itself when \<open>s\<close> has no \<^verbatim>\<open>/\<close>.
\<close>

theorem username_of_handle:
  "(\<not> startswith r github_prefix \<longrightarrow> username_of r = r) \<and>
   username_of (github_prefix @ s) = rev (takeWhile (\<lambda>c. c \<noteq> CHR ''/'') (rev s)) \<and>
   (CHR ''/'' \<notin> set s \<longrightarrow> username_of (github_prefix @ s) = s)"
  by (simp add: username_of_prefix last_split_on split_on_no_sep) (simp add: username_of_def)

theorem username_of_handle_witness:
  "\<not> startswith ''alice'' github_prefix \<and> username_of ''alice'' = ''alice'' \<and>
   CHR ''/'' \<notin> set ''alice'' \<and> username_of (github_prefix @ ''alice'') = ''alice''"
  using username_of_handle [of "''alice''" "''alice''"]
  by (simp add: startswith_def github_prefix_def)

text \<open>
  C8 as stated fails: the handle of the prefix followed by \<^verbatim>\<open>alice/repo\<close> is not
  \<^verbatim>\<open>alice/repo\<close> (it is \<^verbatim>\<open>repo\<close>).
\<close>

theorem username_of_prefix_counterexample:
  "username_of (github_prefix @ ''alice/repo'') \<noteq> ''alice/repo''"
  by (simp add: username_of_def startswith_def github_prefix_def)

section \<open>The rotation of the keys\<close>

lemma http_get_snd: "snd (http_get nt tr u a w) =
    w\<lparr>requests := requests w @ [\<lparr>via = tr, url = u, authorization = a\<rparr>]\<rparr>"
  by (simp add: http_get_def Let_def)

lemma http_get_world: "http_get nt tr u a w = (x, w') \<Longrightarrow>
    w' = w\<lparr>requests := requests w @ [\<lparr>via = tr, url = u, authorization = a\<rparr>]\<rparr>"
  by (auto simp: http_get_def Let_def)

lemma http_get_fst: "fst (http_get nt tr u a w) =
    (case nt (requests w) \<lparr>via = tr, url = u, authorization = a\<rparr> of
       None \<Rightarrow> Inl RequestException
     | Some r \<Rightarrow>
         if tr = RetrySession \<and> status_code r \<in> set status_forcelist then Inl RetryError
         else Inr r)"
  by (simp add: http_get_def Let_def)

lemma get_remaining_requests_snd:
  "snd (get_remaining_requests nt h w) = w \<or>
   snd (get_remaining_requests nt h w) =
     w\<lparr>requests := requests w @ [\<lparr>via = RetrySession, url = rate_limit_url,
        authorization = ''token '' @ api_keys h ! current_key_index h\<rparr>]\<rparr>"
  by (auto simp: get_remaining_requests_def get_headers_def
      split: sum.splits prod.splits dest: http_get_world)

lemma get_remaining_requests_sleeps:
  "sleeps (snd (get_remaining_requests nt h w)) = sleeps w"
  using get_remaining_requests_snd [of nt h w] by auto

lemma get_remaining_requests_Inr_index:
  "fst (get_remaining_requests nt h w) = Inr v \<Longrightarrow> current_key_index h < length (api_keys h)"
  by (simp add: get_remaining_requests_def get_headers_def split: if_splits)

lemma get_remaining_requests_failed:
  assumes "current_key_index h < length (api_keys h)"
    and "nt (requests w) \<lparr>via = RetrySession, url = rate_limit_url,
           authorization = ''token '' @ api_keys h ! current_key_index h\<rparr> = Some r"
    and "status_code r \<noteq> 200" and "status_code r \<notin> set status_forcelist"
  shows "fst (get_remaining_requests nt h w) = Inr (JNum 0)"
  using assms by (simp add: get_remaining_requests_def get_headers_def http_get_def Let_def)

lemma get_remaining_requests_retry_error:
  assumes "current_key_index h < length (api_keys h)"
    and "nt (requests w) \<lparr>via = RetrySession, url = rate_limit_url,
           authorization = ''token '' @ api_keys h ! current_key_index h\<rparr> = Some r"
    and "status_code r \<in> set status_forcelist"
  shows "fst (get_remaining_requests nt h w) = Inl RetryError"
  using assms by (simp add: get_remaining_requests_def get_headers_def http_get_def Let_def)

lemma check_raises:
  assumes "fst (get_remaining_requests nt h w) = Inl e"
  shows "fst (check_and_switch_key nt h w) = Some e"
    and "fst (snd (check_and_switch_key nt h w)) = h"
    and "sleeps (snd (snd (check_and_switch_key nt h w))) = sleeps w"
proof -
  obtain w1 where g: "get_remaining_requests nt h w = (Inl e, w1)"
    using assms by (cases "get_remaining_requests nt h w") auto
  have s: "sleeps w1 = sleeps w"
    using get_remaining_requests_sleeps [of nt h w] g by simp
  show "fst (check_and_switch_key nt h w) = Some e"
    using g by (simp add: check_and_switch_key_def)
  show "fst (snd (check_and_switch_key nt h w)) = h"
    using g by (simp add: check_and_switch_key_def)
  show "sleeps (snd (snd (check_and_switch_key nt h w))) = sleeps w"
    using g s by (simp add: check_and_switch_key_def)
qed

lemma check_low:
  assumes "fst (get_remaining_requests nt h w) = Inr (JNum n)" "n < 10"
  shows "fst (check_and_switch_key nt h w) = None"
    and "current_key_index (fst (snd (check_and_switch_key nt h w)))
           = (current_key_index h + 1) mod length (api_keys h)"
    and "failed_attempts (fst (snd (check_and_switch_key nt h w)))
           = (if 17 \<le> failed_attempts h then 0 else failed_attempts h + 1)"
    and "sleeps (snd (snd (check_and_switch_key nt h w)))
           = (if 17 \<le> failed_attempts h then sleeps w @ [3900] else sleeps w)"
    and "api_keys (fst (snd (check_and_switch_key nt h w))) = api_keys h"
proof -
  obtain w1 where g: "get_remaining_requests nt h w = (Inr (JNum n), w1)"
    using assms(1) by (cases "get_remaining_requests nt h w") auto
  have k: "api_keys h \<noteq> []"
    using get_remaining_requests_Inr_index [OF assms(1)] by auto
  have s: "sleeps w1 = sleeps w"
    using get_remaining_requests_sleeps [of nt h w] g by simp
  show "fst (check_and_switch_key nt h w) = None"
    using g k assms(2) by (simp add: check_and_switch_key_def Let_def)
  show "current_key_index (fst (snd (check_and_switch_key nt h w)))
           = (current_key_index h + 1) mod length (api_keys h)"
    using g k assms(2) by (simp add: check_and_switch_key_def Let_def)
  show "failed_attempts (fst (snd (check_and_switch_key nt h w)))
           = (if 17 \<le> failed_attempts h then 0 else failed_attempts h + 1)"
    using g k assms(2) by (simp add: check_and_switch_key_def Let_def)
  show "sleeps (snd (snd (check_and_switch_key nt h w)))
           = (if 17 \<le> failed_attempts h then sleeps w @ [3900] else sleeps w)"
    using g k s assms(2) by (simp add: check_and_switch_key_def Let_def log_line_def)
  show "api_keys (fst (snd (check_and_switch_key nt h w))) = api_keys h"
    using g k assms(2) by (simp add: check_and_switch_key_def Let_def)
qed

lemma check_high:
  assumes "fst (get_remaining_requests nt h w) = Inr (JNum n)" "\<not> n < 10"
  shows "fst (check_and_switch_key nt h w) = None"
    and "fst (snd (check_and_switch_key nt h w)) = h"
    and "sleeps (snd (snd (check_and_switch_key nt h w))) = sleeps w"
proof -
  obtain w1 where g: "get_remaining_requests nt h w = (Inr (JNum n), w1)"
    using assms(1) by (cases "get_remaining_requests nt h w") auto
  have s: "sleeps w1 = sleeps w"
    using get_remaining_requests_sleeps [of nt h w] g by simp
  show "fst (check_and_switch_key nt h w) = None"
    using g assms(2) by (simp add: check_and_switch_key_def Let_def)
  show "fst (snd (check_and_switch_key nt h w)) = h"
    using g assms(2) by (simp add: check_and_switch_key_def Let_def)
  show "sleeps (snd (snd (check_and_switch_key nt h w))) = sleeps w"
    using g s assms(2) by (simp add: check_and_switch_key_def Let_def log_line_def)
qed

lemma next_index_differs:
  "i < n \<Longrightarrow> 2 \<le> n \<Longrightarrow> (i + 1) mod n \<noteq> (i::nat)"
  by (cases "i + 1 < n") (auto simp: mod_if)

text \<open>
  C2, as amended. For a handler whose index is within its pool of keys: a quota query
  that the session answers with a status other than 200 reports 0 remaining requests; the
  session hands back every status but 500, 502 and 504, and where it stops at one of
  these it raises, \<^verbatim>\<open>check_and_switch_key\<close> raises with it and the handler is left as it
  was. Whatever number \<open>n\<close> the query reports, \<^verbatim>\<open>check_and_switch_key\<close> returns with the
  index at \<open>(index + 1) mod (pool size)\<close> when \<open>n < 10\<close> and at the same index when
  \<open>n \<ge> 10\<close>. With two keys or more the index changes exactly when \<open>n < 10\<close>.
\<close>

theorem check_and_switch_key_rotates:
  assumes "current_key_index h < length (api_keys h)"
  shows "(\<forall>r. nt (requests w) \<lparr>via = RetrySession, url = rate_limit_url,
              authorization = ''token '' @ api_keys h ! current_key_index h\<rparr> = Some r \<and>
            status_code r \<noteq> 200 \<and> status_code r \<notin> set status_forcelist
            \<longrightarrow> fst (get_remaining_requests nt h w) = Inr (JNum 0)) \<and>
         (\<forall>r. nt (requests w) \<lparr>via = RetrySession, url = rate_limit_url,
              authorization = ''token '' @ api_keys h ! current_key_index h\<rparr> = Some r \<and>
            status_code r \<in> set status_forcelist
            \<longrightarrow> fst (check_and_switch_key nt h w) = Some RetryError \<and>
                fst (snd (check_and_switch_key nt h w)) = h) \<and>
         (\<forall>n. fst (get_remaining_requests nt h w) = Inr (JNum n)
            \<longrightarrow> fst (check_and_switch_key nt h w) = None \<and>
                current_key_index (fst (snd (check_and_switch_key nt h w))) =
                  (if n < 10 then (current_key_index h + 1) mod length (api_keys h)
                   else current_key_index h) \<and>
                (2 \<le> length (api_keys h) \<longrightarrow>
                   (current_key_index (fst (snd (check_and_switch_key nt h w))) \<noteq>
                      current_key_index h) = (n < 10)))"
proof (intro conjI allI impI)
  fix r
  assume "nt (requests w) \<lparr>via = RetrySession, url = rate_limit_url,
              authorization = ''token '' @ api_keys h ! current_key_index h\<rparr> = Some r \<and>
            status_code r \<noteq> 200 \<and> status_code r \<notin> set status_forcelist"
  then show "fst (get_remaining_requests nt h w) = Inr (JNum 0)"
    using get_remaining_requests_failed [OF assms, of nt w r] by blast
next
  fix r
  assume "nt (requests w) \<lparr>via = RetrySession, url = rate_limit_url,
              authorization = ''token '' @ api_keys h ! current_key_index h\<rparr> = Some r \<and>
            status_code r \<in> set status_forcelist"
  then have e: "fst (get_remaining_requests nt h w) = Inl RetryError"
    using get_remaining_requests_retry_error [OF assms, of nt w r] by blast
  show "fst (check_and_switch_key nt h w) = Some RetryError"
    by (rule check_raises(1) [OF e])
  show "fst (snd (check_and_switch_key nt h w)) = h"
    by (rule check_raises(2) [OF e])
next
  fix n
  assume g: "fst (get_remaining_requests nt h w) = Inr (JNum n)"
  show "fst (check_and_switch_key nt h w) = None"
    using g by (cases "n < 10") (simp_all add: check_low check_high)
  show "current_key_index (fst (snd (check_and_switch_key nt h w))) =
          (if n < 10 then (current_key_index h + 1) mod length (api_keys h)
           else current_key_index h)"
    using g by (cases "n < 10") (simp_all add: check_low check_high)
  assume "2 \<le> length (api_keys h)"
  then show "(current_key_index (fst (snd (check_and_switch_key nt h w))) \<noteq>
                current_key_index h) = (n < 10)"
    using g assms next_index_differs [of "current_key_index h" "length (api_keys h)"]
    by (cases "n < 10") (simp_all add: check_low check_high)
qed

theorem check_and_switch_key_rotates_witness:
  "current_key_index two_keys < length (api_keys two_keys) \<and>
   fst (get_remaining_requests forbidden_net two_keys world0) = Inr (JNum 0) \<and>
   current_key_index (fst (snd (check_and_switch_key forbidden_net two_keys world0))) = 1 \<and>
   fst (get_remaining_requests plenty_net two_keys world0) = Inr (JNum 5000) \<and>
   current_key_index (fst (snd (check_and_switch_key plenty_net two_keys world0))) = 0 \<and>
   fst (check_and_switch_key bad_gateway_net two_keys world0) = Some RetryError \<and>
   fst (snd (check_and_switch_key bad_gateway_net two_keys world0)) = two_keys"
proof -
  have v: "current_key_index two_keys < length (api_keys two_keys)"
    by (simp add: two_keys_def init_handler_def)
  note t = check_and_switch_key_rotates [OF v]
  have "forbidden_net (requests world0) \<lparr>via = RetrySession, url = rate_limit_url,
          authorization = ''token '' @ api_keys two_keys ! current_key_index two_keys\<rparr> =
        Some \<lparr>status_code = 403, resp_text = [], resp_json = None\<rparr>"
    by (simp add: forbidden_net_def)
  with t [of forbidden_net world0, THEN conjunct1]
  have f: "fst (get_remaining_requests forbidden_net two_keys world0) = Inr (JNum 0)"
    by (simp add: status_forcelist_def)
  have p: "fst (get_remaining_requests plenty_net two_keys world0) = Inr (JNum 5000)"
    by (simp add: get_remaining_requests_def get_headers_def http_get_def Let_def
        two_keys_def init_handler_def plenty_net_def response_json_def status_forcelist_def)
  from t [of forbidden_net world0, THEN conjunct2, THEN conjunct2] f
  have 1: "current_key_index (fst (snd (check_and_switch_key forbidden_net two_keys world0))) = 1"
    by (simp add: two_keys_def init_handler_def)
  from t [of plenty_net world0, THEN conjunct2, THEN conjunct2] p
  have 2: "current_key_index (fst (snd (check_and_switch_key plenty_net two_keys world0))) = 0"
    by (simp add: two_keys_def init_handler_def)
  have "bad_gateway_net (requests world0) \<lparr>via = RetrySession, url = rate_limit_url,
          authorization = ''token '' @ api_keys two_keys ! current_key_index two_keys\<rparr> =
        Some bad_gateway"
    by (simp add: bad_gateway_net_def)
  with t [of bad_gateway_net world0, THEN conjunct2, THEN conjunct1]
  have 3: "fst (check_and_switch_key bad_gateway_net two_keys world0) = Some RetryError"
    "fst (snd (check_and_switch_key bad_gateway_net two_keys world0)) = two_keys"
    by (simp_all add: bad_gateway_def status_forcelist_def)
  from v f p 1 2 3 show ?thesis by simp
qed

text \<open>
  C2 as stated fails: where the quota query keeps getting 502, a response that is not 200,
  \<^verbatim>\<open>check_and_switch_key\<close> raises and the index stays at 0 instead of moving to 1.
\<close>

theorem quota_502_counterexample:
  "fst (check_and_switch_key bad_gateway_net two_keys world0) = Some RetryError \<and>
   current_key_index (fst (snd (check_and_switch_key bad_gateway_net two_keys world0))) = 0 \<and>
   (current_key_index two_keys + 1) mod length (api_keys two_keys) = 1"
proof -
  have v: "current_key_index two_keys < length (api_keys two_keys)"
    by (simp add: two_keys_def init_handler_def)
  have "fst (get_remaining_requests bad_gateway_net two_keys world0) = Inl RetryError"
    by (rule get_remaining_requests_retry_error [OF v, where r = bad_gateway])
      (simp_all add: bad_gateway_net_def bad_gateway_def status_forcelist_def)
  from check_raises(1,2) [OF this] show ?thesis
    by (simp add: two_keys_def init_handler_def)
qed

lemma quota_check_steps:
  assumes low: "\<forall>(h::GitHubApiHandler) w. current_key_index h < length (api_keys h)
            \<longrightarrow> (\<exists>n<10. fst (get_remaining_requests nt h w) = Inr (JNum n))"
    and v: "current_key_index h0 < length (api_keys h0)"
    and z: "failed_attempts h0 = 0"
  shows "k < 18 \<Longrightarrow>
     failed_attempts (fst ((quota_check nt ^^ k) (h0, w0))) = k \<and>
     sleeps (snd ((quota_check nt ^^ k) (h0, w0))) = sleeps w0 \<and>
     api_keys (fst ((quota_check nt ^^ k) (h0, w0))) = api_keys h0 \<and>
     current_key_index (fst ((quota_check nt ^^ k) (h0, w0))) < length (api_keys h0)"
proof (induction k)
  case 0
  show ?case using v z by simp
next
  case (Suc k)
  define s where "s = (quota_check nt ^^ k) (h0, w0)"
  from Suc have ih: "failed_attempts (fst s) = k" "sleeps (snd s) = sleeps w0"
    "api_keys (fst s) = api_keys h0" "current_key_index (fst s) < length (api_keys h0)"
    by (simp_all add: s_def)
  from low [rule_format, of "fst s" "snd s"] ih obtain n where
    n: "n < 10" "fst (get_remaining_requests nt (fst s) (snd s)) = Inr (JNum n)"
    by auto
  have k: "\<not> 17 \<le> k" using Suc.prems by simp
  have "(quota_check nt ^^ Suc k) (h0, w0) = snd (check_and_switch_key nt (fst s) (snd s))"
    by (simp add: s_def quota_check_def)
  moreover have "0 < length (api_keys h0)" using v by auto
  ultimately show ?case
    using check_low [OF n(2) n(1)] ih k by simp
qed

lemma quota_check_18:
  assumes low: "\<forall>(h::GitHubApiHandler) w. current_key_index h < length (api_keys h)
            \<longrightarrow> (\<exists>n<10. fst (get_remaining_requests nt h w) = Inr (JNum n))"
    and v: "current_key_index h0 < length (api_keys h0)"
    and z: "failed_attempts h0 = 0"
  shows "failed_attempts (fst ((quota_check nt ^^ 18) (h0, w0))) = 0 \<and>
     sleeps (snd ((quota_check nt ^^ 18) (h0, w0))) = sleeps w0 @ [3900] \<and>
     api_keys (fst ((quota_check nt ^^ 18) (h0, w0))) = api_keys h0 \<and>
     current_key_index (fst ((quota_check nt ^^ 18) (h0, w0))) < length (api_keys h0)"
proof -
  define s where "s = (quota_check nt ^^ 17) (h0, w0)"
  from quota_check_steps [OF low v z, of 17 w0]
  have ih: "failed_attempts (fst s) = 17" "sleeps (snd s) = sleeps w0"
    "api_keys (fst s) = api_keys h0" "current_key_index (fst s) < length (api_keys h0)"
    by (simp_all add: s_def)
  from low [rule_format, of "fst s" "snd s"] ih obtain n where
    n: "n < 10" "fst (get_remaining_requests nt (fst s) (snd s)) = Inr (JNum n)"
    by auto
  have "(18::nat) = Suc 17" by simp
  then have e: "(quota_check nt ^^ 18) (h0, w0) = snd (check_and_switch_key nt (fst s) (snd s))"
    by (simp only: funpow.simps o_apply s_def quota_check_def)
  have "0 < length (api_keys h0)" using v by auto
  then show ?thesis
    using check_low [OF n(2) n(1)] ih by (simp add: e)
qed

lemma quota_check_19:
  assumes low: "\<forall>(h::GitHubApiHandler) w. current_key_index h < length (api_keys h)
            \<longrightarrow> (\<exists>n<10. fst (get_remaining_requests nt h w) = Inr (JNum n))"
    and v: "current_key_index h0 < length (api_keys h0)"
    and z: "failed_attempts h0 = 0"
  shows "failed_attempts (fst ((quota_check nt ^^ 19) (h0, w0))) = 1 \<and>
     sleeps (snd ((quota_check nt ^^ 19) (h0, w0))) = sleeps w0 @ [3900]"
proof -
  define s where "s = (quota_check nt ^^ 18) (h0, w0)"
  from quota_check_18 [OF low v z, of w0]
  have ih: "failed_attempts (fst s) = 0" "sleeps (snd s) = sleeps w0 @ [3900]"
    "api_keys (fst s) = api_keys h0" "current_key_index (fst s) < length (api_keys h0)"
    by (simp_all add: s_def)
  from low [rule_format, of "fst s" "snd s"] ih obtain n where
    n: "n < 10" "fst (get_remaining_requests nt (fst s) (snd s)) = Inr (JNum n)"
    by auto
  have "(19::nat) = Suc 18" by simp
  then have e: "(quota_check nt ^^ 19) (h0, w0) = snd (check_and_switch_key nt (fst s) (snd s))"
    by (simp only: funpow.simps o_apply s_def quota_check_def)
  show ?thesis
    using check_low [OF n(2) n(1)] ih by (simp add: e)
qed

lemma forbidden_net_low:
  "\<forall>(h::GitHubApiHandler) w. current_key_index h < length (api_keys h)
     \<longrightarrow> (\<exists>n<10. fst (get_remaining_requests forbidden_net h w) = Inr (JNum n))"
proof (intro allI impI)
  fix h :: GitHubApiHandler and w
  assume "current_key_index h < length (api_keys h)"
  then have "fst (get_remaining_requests forbidden_net h w) = Inr (JNum 0)"
    by (rule get_remaining_requests_failed
          [where r = "\<lparr>status_code = 403, resp_text = [], resp_json = None\<rparr>"])
       (simp_all add: forbidden_net_def status_forcelist_def)
  then show "\<exists>n<10. fst (get_remaining_requests forbidden_net h w) = Inr (JNum n)"
    by auto
qed

lemma two_keys_fresh:
  "current_key_index two_keys < length (api_keys two_keys)" "failed_attempts two_keys = 0"
  by (simp_all add: two_keys_def init_handler_def)

text \<open>
  C3, as amended. The quota check that detects low quota and raises the counter to 18
  sleeps for 3900 seconds and sets the counter to 0 before it returns; a detection that
  leaves the counter below 18 does not sleep. So from a counter of 0, with every check
  detecting low quota, the first 17 checks do not sleep, the 18th is the one that sleeps
  and leaves the counter at 0, and the 19th does not sleep and leaves it at 1.
\<close>

theorem cooldown_at_threshold:
  "(\<forall>n. fst (get_remaining_requests nt h w) = Inr (JNum n) \<and> n < 10 \<longrightarrow>
      failed_attempts (fst (quota_check nt (h, w))) =
        (if 18 \<le> failed_attempts h + 1 then 0 else failed_attempts h + 1) \<and>
      sleeps (snd (quota_check nt (h, w))) =
        (if 18 \<le> failed_attempts h + 1 then sleeps w @ [3900] else sleeps w)) \<and>
   ((\<forall>(h'::GitHubApiHandler) w'. current_key_index h' < length (api_keys h')
        \<longrightarrow> (\<exists>n<10. fst (get_remaining_requests nt h' w') = Inr (JNum n))) \<and>
    current_key_index h < length (api_keys h) \<and> failed_attempts h = 0 \<longrightarrow>
      (\<forall>k<18. failed_attempts (fst ((quota_check nt ^^ k) (h, w))) = k \<and>
               sleeps (snd ((quota_check nt ^^ k) (h, w))) = sleeps w) \<and>
      failed_attempts (fst ((quota_check nt ^^ 18) (h, w))) = 0 \<and>
      sleeps (snd ((quota_check nt ^^ 18) (h, w))) = sleeps w @ [3900] \<and>
      failed_attempts (fst ((quota_check nt ^^ 19) (h, w))) = 1 \<and>
      sleeps (snd ((quota_check nt ^^ 19) (h, w))) = sleeps w @ [3900])"
proof (intro conjI allI impI)
  fix n
  assume a: "fst (get_remaining_requests nt h w) = Inr (JNum n) \<and> n < 10"
  then have g: "fst (get_remaining_requests nt h w) = Inr (JNum n)" and n: "n < 10"
    by simp_all
  show "failed_attempts (fst (quota_check nt (h, w))) =
        (if 18 \<le> failed_attempts h + 1 then 0 else failed_attempts h + 1)"
    using check_low(3) [OF g n] by (simp add: quota_check_def)
  show "sleeps (snd (quota_check nt (h, w))) =
        (if 18 \<le> failed_attempts h + 1 then sleeps w @ [3900] else sleeps w)"
    using check_low(4) [OF g n] by (simp add: quota_check_def)
next
  assume a: "(\<forall>(h'::GitHubApiHandler) w'. current_key_index h' < length (api_keys h')
        \<longrightarrow> (\<exists>n<10. fst (get_remaining_requests nt h' w') = Inr (JNum n))) \<and>
    current_key_index h < length (api_keys h) \<and> failed_attempts h = 0"
  then have low: "\<forall>(h'::GitHubApiHandler) w'. current_key_index h' < length (api_keys h')
        \<longrightarrow> (\<exists>n<10. fst (get_remaining_requests nt h' w') = Inr (JNum n))"
    and v: "current_key_index h < length (api_keys h)" and z: "failed_attempts h = 0"
    by blast+
  { fix k :: nat
    assume "k < 18"
    from quota_check_steps [OF low v z this, of w]
    show "failed_attempts (fst ((quota_check nt ^^ k) (h, w))) = k"
      and "sleeps (snd ((quota_check nt ^^ k) (h, w))) = sleeps w"
      by simp_all }
  from quota_check_18 [OF low v z, of w]
  show "failed_attempts (fst ((quota_check nt ^^ 18) (h, w))) = 0"
    and "sleeps (snd ((quota_check nt ^^ 18) (h, w))) = sleeps w @ [3900]"
    by simp_all
  from quota_check_19 [OF low v z, of w]
  show "failed_attempts (fst ((quota_check nt ^^ 19) (h, w))) = 1"
    and "sleeps (snd ((quota_check nt ^^ 19) (h, w))) = sleeps w @ [3900]"
    by simp_all
qed

theorem cooldown_at_threshold_witness:
  "current_key_index two_keys < length (api_keys two_keys) \<and> failed_attempts two_keys = 0 \<and>
   failed_attempts (fst ((quota_check forbidden_net ^^ 17) (two_keys, world0))) = 17 \<and>
   sleeps (snd ((quota_check forbidden_net ^^ 17) (two_keys, world0))) = [] \<and>
   failed_attempts (fst ((quota_check forbidden_net ^^ 18) (two_keys, world0))) = 0 \<and>
   sleeps (snd ((quota_check forbidden_net ^^ 18) (two_keys, world0))) = [3900]"
  using cooldown_at_threshold [of forbidden_net two_keys world0] forbidden_net_low two_keys_fresh
  by (simp add: world0_def)

text \<open>
  C3 as stated fails: after 18 low-quota detections the wait is already over and the
  counter is 0; the next check, the 19th, adds no wait and leaves the counter at 1.
\<close>

theorem next_check_blocks_counterexample:
  "sleeps (snd ((quota_check forbidden_net ^^ 18) (two_keys, world0))) = [3900] \<and>
   failed_attempts (fst ((quota_check forbidden_net ^^ 18) (two_keys, world0))) = 0 \<and>
   sleeps (snd ((quota_check forbidden_net ^^ 19) (two_keys, world0))) = [3900] \<and>
   failed_attempts (fst ((quota_check forbidden_net ^^ 19) (two_keys, world0))) = 1"
  using quota_check_18 [OF forbidden_net_low two_keys_fresh, of world0]
    quota_check_19 [OF forbidden_net_low two_keys_fresh, of world0]
  by (simp add: world0_def)

section \<open>The lookup\<close>

lemma get_remaining_requests_world:
  "get_remaining_requests nt h w = (x, w1) \<Longrightarrow> sleeps w1 = sleeps w"
  using get_remaining_requests_sleeps [of nt h w] by simp

lemma check_returns_valid:
  assumes "check_and_switch_key nt h w = (None, h1, w1)"
  shows "current_key_index h1 < length (api_keys h1)"
proof -
  obtain x w' where g: "get_remaining_requests nt h w = (x, w')"
    by (cases "get_remaining_requests nt h w")
  with assms obtain v where x: "x = Inr v"
    by (cases x) (auto simp: check_and_switch_key_def)
  from g x have i: "current_key_index h < length (api_keys h)"
    using get_remaining_requests_Inr_index [of nt h w v] by simp
  then have "0 < length (api_keys h)" by auto
  with assms g x i show ?thesis
    by (auto simp: check_and_switch_key_def Let_def
        split: sum.splits bool.splits if_splits)
qed

lemma get_email_from_readme_snd:
  "snd (get_email_from_readme nt username headers w) =
     w\<lparr>requests := requests w @
          [\<lparr>via = PlainGet, url = readme_url username, authorization = headers\<rparr>]\<rparr>"
  by (auto simp: get_email_from_readme_def split: prod.splits sum.splits dest: http_get_world)

lemma get_email_from_readme_fst:
  "nt (requests w) \<lparr>via = PlainGet, url = readme_url username, authorization = headers\<rparr> = Some d
   \<Longrightarrow> fst (get_email_from_readme nt username headers w) =
         Inr (if status_code d = 200
              then (case extract_email (resp_text d) of None \<Rightarrow> JNull | Some a \<Rightarrow> JStr a)
              else JNull)"
  by (simp add: get_email_from_readme_def http_get_def Let_def)

lemma fetch_failed:
  assumes "current_key_index h < length (api_keys h)"
    and "nt (requests w) (profile_request h u) = Some r"
    and "status_code r \<noteq> 200" and "status_code r \<notin> set status_forcelist"
  shows "fst (fetch_user_info nt h w u) = Inr JNull"
    and "requests (snd (snd (fetch_user_info nt h w u))) = requests w @ [profile_request h u]"
  using assms
  by (simp_all add: fetch_user_info_def get_headers_def http_get_def Let_def
      profile_request_def log_line_def)

lemma fetch_retry_error:
  assumes "current_key_index h < length (api_keys h)"
    and "nt (requests w) (profile_request h u) = Some r"
    and "status_code r \<in> set status_forcelist"
  shows "fst (fetch_user_info nt h w u) = Inl RetryError"
    and "requests (snd (snd (fetch_user_info nt h w u))) = requests w @ [profile_request h u]"
  using assms
  by (simp_all add: fetch_user_info_def get_headers_def http_get_def Let_def
      profile_request_def)

lemma fetch_structured:
  assumes "current_key_index h < length (api_keys h)"
    and "nt (requests w) (profile_request h u) = Some r"
    and "status_code r = 200" and "resp_json r = Some (JObj kv)"
    and "truthy (case map_of kv ''email'' of None \<Rightarrow> JStr [] | Some v \<Rightarrow> v)"
  shows "fst (fetch_user_info nt h w u) =
           Inr (case map_of kv ''email'' of None \<Rightarrow> JStr [] | Some v \<Rightarrow> v)"
    and "requests (snd (snd (fetch_user_info nt h w u))) = requests w @ [profile_request h u]"
  using assms
  by (simp_all add: fetch_user_info_def get_headers_def http_get_def Let_def
      profile_request_def response_json_def status_forcelist_def)

lemma fetch_fallback:
  assumes "current_key_index h < length (api_keys h)"
    and "nt (requests w) (profile_request h u) = Some r"
    and "status_code r = 200" and "resp_json r = Some (JObj kv)"
    and "\<not> truthy (case map_of kv ''email'' of None \<Rightarrow> JStr [] | Some v \<Rightarrow> v)"
  shows "requests (snd (snd (fetch_user_info nt h w u))) =
           requests w @ [profile_request h u, readme_request h u]"
    and "nt (requests w @ [profile_request h u]) (readme_request h u) = Some d \<Longrightarrow>
         fst (fetch_user_info nt h w u) =
           Inr (if status_code d = 200
                then (case extract_email (resp_text d) of None \<Rightarrow> JNull | Some a \<Rightarrow> JStr a)
                else JNull)"
proof -
  let ?hd = "''token '' @ api_keys h ! current_key_index h"
  let ?w1 = "w\<lparr>requests := requests w @ [profile_request h u]\<rparr>"
  have f: "fetch_user_info nt h w u =
      (fst (get_email_from_readme nt (username_of u) ?hd ?w1),
       h\<lparr>request_count := request_count h + 1\<rparr>,
       snd (get_email_from_readme nt (username_of u) ?hd ?w1))"
    using assms
    by (simp add: fetch_user_info_def get_headers_def http_get_def Let_def
        profile_request_def response_json_def split_beta status_forcelist_def)
  show "requests (snd (snd (fetch_user_info nt h w u))) =
           requests w @ [profile_request h u, readme_request h u]"
    by (simp add: f get_email_from_readme_snd readme_request_def)
  assume "nt (requests w @ [profile_request h u]) (readme_request h u) = Some d"
  then show "fst (fetch_user_info nt h w u) =
           Inr (if status_code d = 200
                then (case extract_email (resp_text d) of None \<Rightarrow> JNull | Some a \<Rightarrow> JStr a)
                else JNull)"
    by (simp add: f readme_request_def get_email_from_readme_fst)
qed

text \<open>
  C1, as amended. Let the check of the key return and the profile query get an answer. If
  the session hands it back with a status other than 200 (it hands back every status but
  500, 502 and 504), the result is \<^verbatim>\<open>None\<close> and no document is fetched. If the session
  stops at 500, 502 or 504 it raises, the lookup raises with it and no document is
  fetched. If the status is 200 and the JSON object has a non-empty (truthy)
  \<^verbatim>\<open>email\<close>, the result is that value and the profile query is the last request: no
  document is fetched. If the field is missing, null or empty, the document is fetched by
  a plain request, and the result is \<^verbatim>\<open>extract_email\<close> of its body when its status is
  200, and \<^verbatim>\<open>None\<close> when the status is not 200 or no address is found.
\<close>

theorem lookup_two_stages:
  assumes "check_and_switch_key nt h w = (None, h1, w1)"
    and "nt (requests w1) (profile_request h1 u) = Some r"
  shows "(status_code r \<noteq> 200 \<and> status_code r \<notin> set status_forcelist \<longrightarrow>
            fst (get_user_info_from_github_api nt h w u) = Inr JNull \<and>
            requests (snd (snd (get_user_info_from_github_api nt h w u))) =
              requests w1 @ [profile_request h1 u]) \<and>
         (status_code r \<in> set status_forcelist \<longrightarrow>
            fst (get_user_info_from_github_api nt h w u) = Inl RetryError \<and>
            requests (snd (snd (get_user_info_from_github_api nt h w u))) =
              requests w1 @ [profile_request h1 u]) \<and>
         (\<forall>kv email. status_code r = 200 \<and> resp_json r = Some (JObj kv) \<and>
              dict_get (JObj kv) ''email'' (JStr []) = Inr email \<longrightarrow>
            (truthy email \<longrightarrow>
               fst (get_user_info_from_github_api nt h w u) = Inr email \<and>
               requests (snd (snd (get_user_info_from_github_api nt h w u))) =
                 requests w1 @ [profile_request h1 u]) \<and>
            (\<not> truthy email \<longrightarrow>
               requests (snd (snd (get_user_info_from_github_api nt h w u))) =
                 requests w1 @ [profile_request h1 u, readme_request h1 u] \<and>
               (\<forall>d. nt (requests w1 @ [profile_request h1 u]) (readme_request h1 u) = Some d
                  \<longrightarrow> fst (get_user_info_from_github_api nt h w u) =
                        Inr (if status_code d = 200
                             then (case extract_email (resp_text d) of
                                     None \<Rightarrow> JNull | Some a \<Rightarrow> JStr a)
                             else JNull))))"
proof -
  have v: "current_key_index h1 < length (api_keys h1)"
    using assms(1) by (rule check_returns_valid)
  have g: "get_user_info_from_github_api nt h w u = fetch_user_info nt h1 w1 u"
    using assms(1) by (simp add: get_user_info_from_github_api_def)
  show ?thesis
    unfolding g dict_get.simps
    using fetch_failed [of h1 nt w1 u r, OF v assms(2)]
      fetch_retry_error [of h1 nt w1 u r, OF v assms(2)]
      fetch_structured [of h1 nt w1 u r, OF v assms(2)]
      fetch_fallback [of h1 nt w1 u r, OF v assms(2)]
    by blast
qed

lemma extract_email_readme_ok:
  "extract_email ''Contact: <alice@example.org>'' = Some ''alice@example.org''"
  by code_simp

lemma username_of_alice: "username_of ''https://github.com/alice'' = ''alice''"
  by (simp add: username_of_def startswith_def github_prefix_def)

lemma check_plenty:
  "check_and_switch_key (service ud r1 r2) two_keys world0 =
     (None, two_keys,
      world0\<lparr>requests := [\<lparr>via = RetrySession, url = rate_limit_url,
                               authorization = ''token k1''\<rparr>],
             logged := [RemainingRequests (JNum 5000)]\<rparr>)"
  by (simp add: check_and_switch_key_def get_remaining_requests_def get_headers_def
      http_get_def Let_def service_def plenty_net_def response_json_def log_line_def
      two_keys_def init_handler_def world0_def status_forcelist_def)

lemma check_plenty_404:
  "check_and_switch_key profile_404_net two_keys world0 =
     (None, two_keys,
      world0\<lparr>requests := [\<lparr>via = RetrySession, url = rate_limit_url,
                               authorization = ''token k1''\<rparr>],
             logged := [RemainingRequests (JNum 5000)]\<rparr>)"
  by (simp add: check_and_switch_key_def get_remaining_requests_def get_headers_def
      http_get_def Let_def profile_404_net_def plenty_net_def response_json_def log_line_def
      two_keys_def init_handler_def world0_def status_forcelist_def)

lemma check_plenty_502:
  "check_and_switch_key profile_502_net two_keys world0 =
     (None, two_keys,
      world0\<lparr>requests := [\<lparr>via = RetrySession, url = rate_limit_url,
                               authorization = ''token k1''\<rparr>],
             logged := [RemainingRequests (JNum 5000)]\<rparr>)"
  by (simp add: check_and_switch_key_def get_remaining_requests_def get_headers_def
      http_get_def Let_def profile_502_net_def plenty_net_def response_json_def log_line_def
      two_keys_def init_handler_def world0_def status_forcelist_def)

lemma profile_404:
  "profile_404_net hist (profile_request two_keys ''https://github.com/alice'') = Some not_found"
  by (simp add: profile_404_net_def profile_request_def user_url_def rate_limit_url_def)

lemma profile_502:
  "profile_502_net hist (profile_request two_keys ''https://github.com/alice'') = Some bad_gateway"
  by (simp add: profile_502_net_def profile_request_def user_url_def rate_limit_url_def)

lemma service_profile:
  "service ud r1 r2 hist (profile_request two_keys ''https://github.com/alice'') =
     Some \<lparr>status_code = 200, resp_text = [], resp_json = Some ud\<rparr>"
  by (simp add: service_def profile_request_def user_url_def rate_limit_url_def
      startswith_def username_of_alice)

lemma service_readme:
  "service ud r1 r2 hist (readme_request two_keys ''https://github.com/alice'') = Some r2"
  by (simp add: service_def readme_request_def readme_url_def rate_limit_url_def
      startswith_def username_of_alice)

theorem lookup_two_stages_witness:
  "fst (get_user_info_from_github_api (service profile_with_email readme_ok readme_ok)
          two_keys world0 ''https://github.com/alice'') = Inr (JStr ''alice@example.org'') \<and>
   map via (requests (snd (snd (get_user_info_from_github_api
          (service profile_with_email readme_ok readme_ok)
          two_keys world0 ''https://github.com/alice'')))) = [RetrySession, RetrySession] \<and>
   fst (get_user_info_from_github_api (service profile_without_email readme_ok readme_ok)
          two_keys world0 ''https://github.com/alice'') = Inr (JStr ''alice@example.org'') \<and>
   map via (requests (snd (snd (get_user_info_from_github_api
          (service profile_without_email readme_ok readme_ok)
          two_keys world0 ''https://github.com/alice'')))) =
     [RetrySession, RetrySession, PlainGet] \<and>
   fst (get_user_info_from_github_api profile_404_net two_keys world0
          ''https://github.com/alice'') = Inr JNull \<and>
   map via (requests (snd (snd (get_user_info_from_github_api profile_404_net two_keys world0
          ''https://github.com/alice'')))) = [RetrySession, RetrySession] \<and>
   fst (get_user_info_from_github_api profile_502_net two_keys world0
          ''https://github.com/alice'') = Inl RetryError \<and>
   map via (requests (snd (snd (get_user_info_from_github_api profile_502_net two_keys world0
          ''https://github.com/alice'')))) = [RetrySession, RetrySession]"
proof -
  note a = lookup_two_stages [OF check_plenty service_profile,
      of profile_with_email readme_ok readme_ok]
  note b = lookup_two_stages [OF check_plenty service_profile,
      of profile_without_email readme_ok readme_ok]
  note c = lookup_two_stages [OF check_plenty_404 profile_404]
  note d = lookup_two_stages [OF check_plenty_502 profile_502]
  from a have 1:
    "fst (get_user_info_from_github_api (service profile_with_email readme_ok readme_ok)
          two_keys world0 ''https://github.com/alice'') = Inr (JStr ''alice@example.org'')"
    "map via (requests (snd (snd (get_user_info_from_github_api
          (service profile_with_email readme_ok readme_ok)
          two_keys world0 ''https://github.com/alice'')))) = [RetrySession, RetrySession]"
    by (simp_all add: profile_with_email_def profile_request_def)
  from b have 2:
    "fst (get_user_info_from_github_api (service profile_without_email readme_ok readme_ok)
          two_keys world0 ''https://github.com/alice'') = Inr (JStr ''alice@example.org'')"
    "map via (requests (snd (snd (get_user_info_from_github_api
          (service profile_without_email readme_ok readme_ok)
          two_keys world0 ''https://github.com/alice'')))) =
     [RetrySession, RetrySession, PlainGet]"
    by (simp_all add: profile_without_email_def service_readme)
       (simp_all add: profile_request_def readme_request_def readme_ok_def
          extract_email_readme_ok)
  from c have 3:
    "fst (get_user_info_from_github_api profile_404_net two_keys world0
          ''https://github.com/alice'') = Inr JNull"
    "map via (requests (snd (snd (get_user_info_from_github_api profile_404_net two_keys world0
          ''https://github.com/alice'')))) = [RetrySession, RetrySession]"
    by (simp_all add: not_found_def status_forcelist_def profile_request_def)
  from d have 4:
    "fst (get_user_info_from_github_api profile_502_net two_keys world0
          ''https://github.com/alice'') = Inl RetryError"
    "map via (requests (snd (snd (get_user_info_from_github_api profile_502_net two_keys world0
          ''https://github.com/alice'')))) = [RetrySession, RetrySession]"
    by (simp_all add: bad_gateway_def status_forcelist_def profile_request_def)
  from 1 2 3 4 show ?thesis by simp
qed

text \<open>
  C1 as stated fails: where the profile query keeps getting 502, a status that is not a
  success, the lookup does not return \<^verbatim>\<open>None\<close>: it raises.
\<close>

theorem profile_502_counterexample:
  "profile_502_net
     (requests (snd (snd (check_and_switch_key profile_502_net two_keys world0))))
     (profile_request two_keys ''https://github.com/alice'') = Some bad_gateway \<and>
   status_code bad_gateway = 502 \<and>
   fst (get_user_info_from_github_api profile_502_net two_keys world0
          ''https://github.com/alice'') = Inl RetryError \<and>
   fst (get_user_info_from_github_api profile_502_net two_keys world0
          ''https://github.com/alice'') \<noteq> Inr JNull"
proof -
  have "fst (get_user_info_from_github_api profile_502_net two_keys world0
          ''https://github.com/alice'') = Inl RetryError"
    by code_simp
  then show ?thesis by (simp add: profile_502 bad_gateway_def)
qed

text \<open>
  C9 fails on the code: the document is fetched by a plain \<^verbatim>\<open>requests.get\<close>, not
  through the retrying session that sends the other two requests. Where the document
  server answers 502 once and 200 afterwards, the lookup returns \<^verbatim>\<open>None\<close>; had the
  request been retried, it would have returned the address.
\<close>

theorem readme_fetch_not_retried:
  "map via (requests (snd (snd (get_user_info_from_github_api
          (service profile_without_email readme_ok readme_502)
          two_keys world0 ''https://github.com/alice'')))) =
     [RetrySession, RetrySession, PlainGet] \<and>
   fst (get_user_info_from_github_api (service profile_without_email readme_ok readme_502)
          two_keys world0 ''https://github.com/alice'') = Inr JNull \<and>
   service profile_without_email readme_ok readme_502 []
     ((readme_request two_keys ''https://github.com/alice'')\<lparr>via := RetrySession\<rparr>) =
     Some readme_ok \<and>
   extract_email (resp_text readme_ok) = Some ''alice@example.org''"
proof -
  have "map via (requests (snd (snd (get_user_info_from_github_api
          (service profile_without_email readme_ok readme_502)
          two_keys world0 ''https://github.com/alice'')))) =
     [RetrySession, RetrySession, PlainGet]"
    by code_simp
  moreover have "fst (get_user_info_from_github_api
          (service profile_without_email readme_ok readme_502)
          two_keys world0 ''https://github.com/alice'') = Inr JNull"
    by code_simp
  moreover have "service profile_without_email readme_ok readme_502 []
     ((readme_request two_keys ''https://github.com/alice'')\<lparr>via := RetrySession\<rparr>) =
     Some readme_ok"
    by (simp add: service_def readme_request_def readme_url_def rate_limit_url_def
        startswith_def username_of_alice)
  moreover have "extract_email (resp_text readme_ok) = Some ''alice@example.org''"
    by (simp add: readme_ok_def extract_email_readme_ok)
  ultimately show ?thesis by simp
qed

section \<open>The extraction of the address\<close>

lemma try_down_Some:
  "try_down f lo hi = Some r \<Longrightarrow>
     \<exists>j. lo \<le> j \<and> j \<le> hi \<and> f j = Some r \<and> (\<forall>j'. j < j' \<and> j' \<le> hi \<longrightarrow> f j' = None)"
proof (induction hi)
  case 0
  then show ?case by (auto split: if_splits)
next
  case (Suc h)
  show ?case
  proof (cases "f (Suc h)")
    case (Some x)
    with Suc.prems have "\<not> Suc h < lo" "f (Suc h) = Some r" by (auto split: if_splits)
    then show ?thesis by (intro exI [of _ "Suc h"]) auto
  next
    case None
    with Suc.prems have "try_down f lo h = Some r" by (auto split: if_splits)
    from Suc.IH [OF this] obtain j where
      j: "lo \<le> j" "j \<le> h" "f j = Some r" "\<forall>j'. j < j' \<and> j' \<le> h \<longrightarrow> f j' = None"
      by blast
    have "\<forall>j'. j < j' \<and> j' \<le> Suc h \<longrightarrow> f j' = None"
      using j(4) None by (auto simp: le_Suc_eq)
    with j show ?thesis by (intro exI [of _ j]) auto
  qed
qed

lemma try_down_None:
  "try_down f lo hi = None \<Longrightarrow> lo \<le> j \<Longrightarrow> j \<le> hi \<Longrightarrow> f j = None"
proof (induction hi)
  case 0
  then show ?case by (auto split: if_splits)
next
  case (Suc h)
  then show ?case
    by (cases "j = Suc h") (auto split: if_splits option.splits)
qed

lemma takeWhile_length_iff:
  "j \<le> length (takeWhile P s) \<longleftrightarrow> j \<le> length s \<and> list_all P (take j s)"
proof (induction s arbitrary: j)
  case Nil
  show ?case by simp
next
  case (Cons c s)
  show ?case by (cases j) (auto simp: Cons.IH)
qed

lemma prev_at_last_or:
  "j \<le> length s \<Longrightarrow> prev_at p s j = last_or p (take j s)"
  by (cases j) (auto simp: prev_at_def last_or_def last_conv_nth min_def)

text \<open>What a successful match of each kind of token tells.\<close>

lemma match_boundary:
  "match_here (WordBoundary # ts) p s = Some n \<longleftrightarrow>
     at_boundary p s \<and> match_here ts p s = Some n"
  by simp

lemma match_literal:
  "match_here (Literal c # ts) p s = Some n \<longleftrightarrow>
     (\<exists>xs m. s = c # xs \<and> n = Suc m \<and> match_here ts (Some c) xs = Some m)"
  by (cases s) auto

lemma match_at_least:
  assumes "match_here (AtLeast lo items # ts) p s = Some n"
  shows "\<exists>j m. lo \<le> j \<and> j \<le> length s \<and> list_all (in_class items) (take j s) \<and> n = j + m \<and>
           match_here ts (last_or p (take j s)) (drop j s) = Some m \<and>
           (\<forall>j'. j < j' \<and> j' \<le> length s \<and> list_all (in_class items) (take j' s)
               \<longrightarrow> match_here ts (last_or p (take j' s)) (drop j' s) = None)"
proof -
  let ?f = "\<lambda>j. map_option (\<lambda>r. j + r) (match_here ts (prev_at p s j) (drop j s))"
  from assms have "try_down ?f lo (length (takeWhile (in_class items) s)) = Some n"
    by simp
  from try_down_Some [OF this] obtain j where
    j: "lo \<le> j" "j \<le> length (takeWhile (in_class items) s)" "?f j = Some n"
      "\<forall>j'. j < j' \<and> j' \<le> length (takeWhile (in_class items) s) \<longrightarrow> ?f j' = None"
    by blast
  from j(2) have js: "j \<le> length s" "list_all (in_class items) (take j s)"
    by (simp_all add: takeWhile_length_iff)
  from j(3) obtain m where m: "n = j + m" "match_here ts (prev_at p s j) (drop j s) = Some m"
    by auto
  have "\<forall>j'. j < j' \<and> j' \<le> length s \<and> list_all (in_class items) (take j' s)
               \<longrightarrow> match_here ts (last_or p (take j' s)) (drop j' s) = None"
    using j(4) by (auto simp: takeWhile_length_iff prev_at_last_or)
  with j(1) js m show ?thesis
    by (auto simp: prev_at_last_or)
qed

lemma match_at_least_None:
  assumes "match_here (AtLeast lo items # ts) p s = None"
    and "lo \<le> j" "j \<le> length s" "list_all (in_class items) (take j s)"
  shows "match_here ts (last_or p (take j s)) (drop j s) = None"
proof -
  let ?f = "\<lambda>j. map_option (\<lambda>r. j + r) (match_here ts (prev_at p s j) (drop j s))"
  from assms(1) have "try_down ?f lo (length (takeWhile (in_class items) s)) = None"
    by simp
  from try_down_None [OF this assms(2)] assms(3,4) show ?thesis
    by (simp add: takeWhile_length_iff prev_at_last_or)
qed

lemma match_here_sound:
  "match_here ts p s = Some n \<Longrightarrow> n \<le> length s \<and> shape ts p (take n s) (drop n s)"
proof (induction ts arbitrary: p s n)
  case Nil
  then show ?case by simp
next
  case (Cons t ts)
  show ?case
  proof (cases t)
    case WordBoundary
    with Cons.prems Cons.IH [of p s n] show ?thesis by (auto split: if_splits)
  next
    case (Literal c)
    with Cons.prems have "match_here (Literal c # ts) p s = Some n" by simp
    then obtain xs m where
      x: "s = c # xs" "n = Suc m" "match_here ts (Some c) xs = Some m"
      unfolding match_literal by blast
    from Cons.IH [OF x(3)] x(1,2) Literal show ?thesis by simp
  next
    case (AtLeast lo items)
    with Cons.prems match_at_least [of lo items ts p s n] obtain j m where
      j: "lo \<le> j" "j \<le> length s" "list_all (in_class items) (take j s)" "n = j + m"
        "match_here ts (last_or p (take j s)) (drop j s) = Some m"
      by blast
    from Cons.IH [OF j(5)] have
      m: "m \<le> length (drop j s)" "shape ts (last_or p (take j s)) (take m (drop j s)) (drop m (drop j s))"
      by simp_all
    have t: "take n s = take j s @ take m (drop j s)"
      using j(4) by (simp add: take_add)
    have d: "drop n s = drop m (drop j s)"
      using j(4) by (simp add: add.commute)
    have "\<exists>a b. take n s = a @ b \<and> lo \<le> length a \<and> list_all (in_class items) a \<and>
            shape ts (last_or p a) b (drop n s)"
    proof (intro exI conjI)
      show "take n s = take j s @ take m (drop j s)" by (rule t)
      show "lo \<le> length (take j s)" using j(1,2) by simp
      show "list_all (in_class items) (take j s)" by (rule j(3))
      show "shape ts (last_or p (take j s)) (take m (drop j s)) (drop n s)"
        using m(2) by (simp only: d)
    qed
    moreover have "n \<le> length s" using j(2,4) m(1) by simp
    ultimately show ?thesis using AtLeast by simp
  qed
qed

lemma match_here_complete:
  "shape ts p u r \<Longrightarrow> match_here ts p (u @ r) \<noteq> None"
proof (induction ts arbitrary: p u)
  case Nil
  then show ?case by simp
next
  case (Cons t ts)
  show ?case
  proof (cases t)
    case WordBoundary
    with Cons.prems Cons.IH [of p u] show ?thesis by simp
  next
    case (Literal c)
    with Cons.prems obtain u' where "u = c # u'" "shape ts (Some c) u' r" by auto
    with Cons.IH [of "Some c" u'] Literal show ?thesis by auto
  next
    case (AtLeast lo items)
    with Cons.prems obtain a b where
      a: "u = a @ b" "lo \<le> length a" "list_all (in_class items) a" "shape ts (last_or p a) b r"
      by auto
    show ?thesis
    proof
      assume "match_here (t # ts) p (u @ r) = None"
      then have "match_here ts (last_or p (take (length a) (u @ r))) (drop (length a) (u @ r)) = None"
        unfolding AtLeast using a by (intro match_at_least_None) auto
      with a(1) Cons.IH [OF a(4)] show False by simp
    qed
  qed
qed

lemma in_local_class: "in_class local_class c = local_char c"
  by (auto simp: in_class_def local_class_def local_char_def letter_def digit_def)

lemma in_domain_class: "in_class domain_class c = domain_char c"
  by (auto simp: in_class_def domain_class_def domain_char_def letter_def digit_def)

lemma in_tld_class: "in_class tld_class c = (letter c \<or> c = CHR ''|'')"
  by (auto simp: in_class_def tld_class_def letter_def)

lemma at_not_local: "\<not> in_class local_class CHR ''@''"
  by (simp add: in_class_def local_class_def)

lemma dot_not_tld: "\<not> in_class tld_class CHR ''.''"
  by (simp add: in_class_def tld_class_def)

lemma shape_at_least_I:
  "lo \<le> length a \<Longrightarrow> list_all (in_class items) a \<Longrightarrow> shape ts (last_or p a) b r
   \<Longrightarrow> shape (AtLeast lo items # ts) p (a @ b) r"
  by auto

lemma shape_literal_I: "shape ts (Some c) u r \<Longrightarrow> shape (Literal c # ts) p (c # u) r"
  by simp

lemma shape_boundary_I:
  "at_boundary p (u @ r) \<Longrightarrow> shape ts p u r \<Longrightarrow> shape (WordBoundary # ts) p u r"
  by simp

lemma shape_pattern:
  "shape pattern p u r \<longleftrightarrow>
     at_boundary p (u @ r) \<and>
     (\<exists>l d t. u = l @ CHR ''@'' # d @ CHR ''.'' # t \<and>
        l \<noteq> [] \<and> list_all (in_class local_class) l \<and>
        d \<noteq> [] \<and> list_all (in_class domain_class) d \<and>
        2 \<le> length t \<and> list_all (in_class tld_class) t \<and>
        at_boundary (Some (last t)) r)"
  (is "?L \<longleftrightarrow> ?R")
proof
  assume ?L
  then obtain l d t where
    "at_boundary p (u @ r)" "u = l @ CHR ''@'' # d @ CHR ''.'' # t"
    "Suc 0 \<le> length l" "list_all (in_class local_class) l"
    "Suc 0 \<le> length d" "list_all (in_class domain_class) d"
    "2 \<le> length t" "list_all (in_class tld_class) t"
    "at_boundary (last_or (Some CHR ''.'') t) r"
    by (auto simp: pattern_def)
  moreover from this have "l \<noteq> []" "d \<noteq> []" "t \<noteq> []" by auto
  ultimately show ?R by (auto simp: last_or_def)
next
  assume ?R
  then obtain l d t where
    b: "at_boundary p (u @ r)" and u: "u = l @ CHR ''@'' # d @ CHR ''.'' # t"
    and l: "l \<noteq> []" "list_all (in_class local_class) l"
    and d: "d \<noteq> []" "list_all (in_class domain_class) d"
    and t: "2 \<le> length t" "list_all (in_class tld_class) t"
    and e: "at_boundary (Some (last t)) r"
    by blast
  from t have tn: "t \<noteq> []" by auto
  have "shape [WordBoundary] (last_or (Some CHR ''.'') t) [] r"
    using e tn by (simp add: last_or_def)
  then have "shape [AtLeast 2 tld_class, WordBoundary] (Some CHR ''.'') (t @ []) r"
    using t by (intro shape_at_least_I)
  then have "shape [Literal CHR ''.'', AtLeast 2 tld_class, WordBoundary]
               (last_or (Some CHR ''@'') d) (CHR ''.'' # t) r"
    by (intro shape_literal_I) simp
  then have "shape [AtLeast 1 domain_class, Literal CHR ''.'', AtLeast 2 tld_class, WordBoundary]
               (Some CHR ''@'') (d @ CHR ''.'' # t) r"
    using d by (intro shape_at_least_I) (simp_all add: Suc_le_eq)
  then have "shape [Literal CHR ''@'', AtLeast 1 domain_class, Literal CHR ''.'',
                AtLeast 2 tld_class, WordBoundary]
               (last_or p l) (CHR ''@'' # d @ CHR ''.'' # t) r"
    by (intro shape_literal_I)
  then have "shape [AtLeast 1 local_class, Literal CHR ''@'', AtLeast 1 domain_class,
                Literal CHR ''.'', AtLeast 2 tld_class, WordBoundary]
               p (l @ CHR ''@'' # d @ CHR ''.'' # t) r"
    using l by (intro shape_at_least_I) (simp_all add: Suc_le_eq)
  with b u show ?L
    unfolding pattern_def by (intro shape_boundary_I) simp_all
qed

lemma drop_Cons_nth: "drop j s = c # xs \<Longrightarrow> j < length s \<and> s ! j = c"
  by (metis drop_all list.distinct(1) not_le nth_via_drop)

lemma list_all_take_nth:
  "list_all P (take j s) \<Longrightarrow> i < j \<Longrightarrow> i < length s \<Longrightarrow> P (s ! i)"
  by (simp add: list_all_length)

declare match_here.simps(2) [simp del]

lemma match_here_longest:
  assumes m: "match_here pattern p (u @ r) = Some n" and sh: "shape pattern p u r"
  shows "length u \<le> n"
proof -
  let ?T5 = "[AtLeast 2 tld_class, WordBoundary]"
  let ?T3 = "AtLeast 1 domain_class # Literal CHR ''.'' # ?T5"
  from sh obtain l d t where u: "u = l @ CHR ''@'' # d @ CHR ''.'' # t"
    and l: "l \<noteq> []" "list_all (in_class local_class) l"
    and d: "d \<noteq> []" "list_all (in_class domain_class) d"
    and t: "2 \<le> length t" "list_all (in_class tld_class) t"
    and e: "at_boundary (Some (last t)) r"
    unfolding shape_pattern by blast
  let ?s = "u @ r"
  from m have "match_here (AtLeast 1 local_class # Literal CHR ''@'' # ?T3) p ?s = Some n"
    unfolding pattern_def match_boundary by simp
  from match_at_least [OF this] obtain j1 m1 where
    j1: "j1 \<le> length ?s" "list_all (in_class local_class) (take j1 ?s)" "n = j1 + m1"
      "match_here (Literal CHR ''@'' # ?T3) (last_or p (take j1 ?s)) (drop j1 ?s) = Some m1"
    by blast
  from j1(4) obtain xs m2 where
    x: "drop j1 ?s = CHR ''@'' # xs" "m1 = Suc m2" "match_here ?T3 (Some CHR ''@'') xs = Some m2"
    unfolding match_literal by blast
  have j1l: "j1 = length l"
  proof (rule ccontr)
    assume ne: "j1 \<noteq> length l"
    show False
    proof (cases "j1 < length l")
      case True
      from drop_Cons_nth [OF x(1)] have "?s ! j1 = CHR ''@''" by simp
      moreover have "?s ! j1 = l ! j1" using True u by (simp add: nth_append)
      moreover have "in_class local_class (l ! j1)"
        using l(2) True by (simp add: list_all_length)
      ultimately show False using at_not_local by simp
    next
      case False
      with ne have g: "length l < j1" by simp
      have "?s ! length l = CHR ''@''" using u by (simp add: nth_append)
      moreover have "in_class local_class (?s ! length l)"
        using list_all_take_nth [OF j1(2) g] j1(1) g by simp
      ultimately show False using at_not_local by simp
    qed
  qed
  have xs: "xs = d @ CHR ''.'' # t @ r" using x(1) u j1l by simp
  from match_at_least [OF x(3)] obtain j2 m3 where
    j2: "j2 \<le> length xs" "m2 = j2 + m3"
      "match_here (Literal CHR ''.'' # ?T5) (last_or (Some CHR ''@'') (take j2 xs)) (drop j2 xs)
         = Some m3"
    and mx: "\<forall>j'. j2 < j' \<and> j' \<le> length xs \<and> list_all (in_class domain_class) (take j' xs)
         \<longrightarrow> match_here (Literal CHR ''.'' # ?T5) (last_or (Some CHR ''@'') (take j' xs))
               (drop j' xs) = None"
    by blast
  from t have tn: "t \<noteq> []" by auto
  have s5: "shape ?T5 (Some CHR ''.'') t r"
    using shape_at_least_I [of 2 t tld_class "[WordBoundary]" "Some CHR ''.''" "[]" r] t e tn
    by (simp add: last_or_def)
  have dj: "length d \<le> j2"
  proof (rule ccontr)
    assume "\<not> length d \<le> j2"
    then have "j2 < length d \<and> length d \<le> length xs \<and>
        list_all (in_class domain_class) (take (length d) xs)"
      using d(2) xs by simp
    from mx [rule_format, OF this]
    have "match_here (Literal CHR ''.'' # ?T5) (last_or (Some CHR ''@'') (take (length d) xs))
               (drop (length d) xs) = None" .
    then have "match_here (Literal CHR ''.'' # ?T5) (last_or (Some CHR ''@'') d)
               ((CHR ''.'' # t) @ r) = None"
      using xs by simp
    moreover have "shape (Literal CHR ''.'' # ?T5) (last_or (Some CHR ''@'') d) (CHR ''.'' # t) r"
      using s5 by (rule shape_literal_I)
    ultimately show False using match_here_complete by blast
  qed
  from j2(3) obtain ys m4 where
    y: "drop j2 xs = CHR ''.'' # ys" "m3 = Suc m4" "match_here ?T5 (Some CHR ''.'') ys = Some m4"
    unfolding match_literal by blast
  have lu: "length u = length l + length d + length t + 2" using u by simp
  show ?thesis
  proof (cases "j2 = length d")
    case True
    then have ys: "ys = t @ r" using y(1) xs by simp
    from match_at_least [OF y(3)] obtain j3 m5 where
      j3: "m4 = j3 + m5"
      and mx3: "\<forall>j'. j3 < j' \<and> j' \<le> length ys \<and> list_all (in_class tld_class) (take j' ys)
         \<longrightarrow> match_here [WordBoundary] (last_or (Some CHR ''.'') (take j' ys)) (drop j' ys) = None"
      by blast
    have "length t \<le> j3"
    proof (rule ccontr)
      assume "\<not> length t \<le> j3"
      then have "j3 < length t \<and> length t \<le> length ys \<and>
          list_all (in_class tld_class) (take (length t) ys)"
        using t(2) ys by simp
      from mx3 [rule_format, OF this]
      have "match_here [WordBoundary] (last_or (Some CHR ''.'') (take (length t) ys))
                   (drop (length t) ys) = None" .
      then show False using ys e tn by (simp add: last_or_def match_here.simps(2))
    qed
    then show ?thesis using j1(3) x(2) j2(2) y(2) j3 j1l True lu by simp
  next
    case False
    with dj have g: "length d < j2" by simp
    from drop_Cons_nth [OF y(1)] have dot: "xs ! j2 = CHR ''.''" by simp
    have "length d + length t < j2"
    proof (rule ccontr)
      assume "\<not> length d + length t < j2"
      then have "xs ! j2 = t ! (j2 - length d - 1)" and "j2 - length d - 1 < length t"
        using g xs by (auto simp: nth_append nth_Cons')
      then have "in_class tld_class (xs ! j2)"
        using t(2) by (simp add: list_all_length)
      with dot show False using dot_not_tld by simp
    qed
    then show ?thesis using j1(3) x(2) j2(2) y(2) j1l lu by simp
  qed
qed

lemma prev_at_Suc: "prev_at p (c # cs) (Suc i) = prev_at (Some c) cs i"
  by (cases i) (simp_all add: prev_at_def)

lemma findall_empty:
  "findall ts p s = [] \<Longrightarrow> i \<le> length s \<Longrightarrow>
     match_here ts (prev_at p s i) (drop i s) = None"
proof (induction s arbitrary: p i)
  case Nil
  then show ?case
    by (subst (asm) findall.simps) (simp add: prev_at_def split: option.splits)
next
  case (Cons c cs)
  from Cons.prems(1) have n: "match_here ts p (c # cs) = None"
    and f: "findall ts (Some c) cs = []"
    by (subst (asm) findall.simps, simp split: option.splits)+
  show ?case
  proof (cases i)
    case 0
    with n show ?thesis by (simp add: prev_at_def)
  next
    case (Suc k)
    with Cons.prems(2) Cons.IH [OF f, of k] show ?thesis by (simp add: prev_at_Suc)
  qed
qed

lemma findall_first:
  "findall ts p s = m # ms \<Longrightarrow>
     \<exists>i n. i \<le> length s \<and> match_here ts (prev_at p s i) (drop i s) = Some n \<and>
           m = take n (drop i s) \<and>
           (\<forall>i'<i. match_here ts (prev_at p s i') (drop i' s) = None)"
proof (induction s arbitrary: p)
  case Nil
  then obtain n where "match_here ts p [] = Some n" "m = take n []"
    by (subst (asm) findall.simps) (auto split: option.splits)
  then show ?case by (intro exI [of _ 0] exI [of _ n]) (simp add: prev_at_def)
next
  case (Cons c cs)
  show ?case
  proof (cases "match_here ts p (c # cs)")
    case (Some n)
    with Cons.prems have "m = take n (c # cs)"
      by (subst (asm) findall.simps) simp
    with Some show ?thesis by (intro exI [of _ 0] exI [of _ n]) (simp add: prev_at_def)
  next
    case None
    with Cons.prems have "findall ts (Some c) cs = m # ms"
      by (subst (asm) findall.simps) simp
    from Cons.IH [OF this] obtain i n where
      i: "i \<le> length cs" "match_here ts (prev_at (Some c) cs i) (drop i cs) = Some n"
        "m = take n (drop i cs)"
        "\<forall>i'<i. match_here ts (prev_at (Some c) cs i') (drop i' cs) = None"
      by blast
    have "\<forall>i'<Suc i. match_here ts (prev_at p (c # cs) i') (drop i' (c # cs)) = None"
    proof (intro allI impI)
      fix i' assume "i' < Suc i"
      then show "match_here ts (prev_at p (c # cs) i') (drop i' (c # cs)) = None"
        using None i(4) by (cases i') (simp_all add: prev_at_def [of p _ 0] prev_at_Suc)
    qed
    with i(1,2,3) show ?thesis
      by (intro exI [of _ "Suc i"] exI [of _ n]) (simp add: prev_at_Suc)
  qed
qed

lemma first_char_drop:
  "first_char (drop i s) = (if i < length s then Some (s ! i) else None)"
  by (cases "drop i s") (auto simp: first_char_def dest: drop_Cons_nth)

lemma at_boundary_position:
  "i \<le> length text \<Longrightarrow> at_boundary (prev_at None text i) (drop i text) = word_boundary text i"
  by (auto simp: at_boundary_def word_boundary_def prev_at_def word_opt_def first_char_drop)

lemma at_boundary_end:
  assumes "0 < n" "i + n \<le> length text"
  shows "at_boundary (Some (last (take n (drop i text)))) (drop n (drop i text))
           = word_boundary text (i + n)"
proof -
  have "min (length text - i) n = n" using assms by simp
  then have "last (take n (drop i text)) = text ! (i + n - 1)"
    using assms by (simp add: last_conv_nth)
  moreover have "drop n (drop i text) = drop (i + n) text" by (simp add: add.commute)
  ultimately show ?thesis
    using assms at_boundary_position [of "i + n" "text"] by (simp add: prev_at_def)
qed

lemma pattern_text_iff:
  "pattern_text u \<longleftrightarrow>
     (\<exists>l d t. u = l @ CHR ''@'' # d @ CHR ''.'' # t \<and>
        l \<noteq> [] \<and> list_all (in_class local_class) l \<and>
        d \<noteq> [] \<and> list_all (in_class domain_class) d \<and>
        2 \<le> length t \<and> list_all (in_class tld_class) t)"
  by (simp add: pattern_text_def)

lemma shape_pattern_span:
  assumes i: "i \<le> length text"
  shows "shape pattern (prev_at None text i) (take n (drop i text)) (drop n (drop i text)) \<and>
           n \<le> length (drop i text)
         \<longleftrightarrow> pattern_span text i n"
    (is "?L \<longleftrightarrow> ?R")
proof
  let ?u = "take n (drop i text)"
  assume ?L
  then have sh: "shape pattern (prev_at None text i) ?u (drop n (drop i text))"
    and n: "n \<le> length (drop i text)"
    by simp_all
  from sh obtain l d t where
    b: "at_boundary (prev_at None text i) (?u @ drop n (drop i text))"
    and u: "?u = l @ CHR ''@'' # d @ CHR ''.'' # t"
    and c: "l \<noteq> []" "list_all (in_class local_class) l"
      "d \<noteq> []" "list_all (in_class domain_class) d"
      "2 \<le> length t" "list_all (in_class tld_class) t"
    and e: "at_boundary (Some (last t)) (drop n (drop i text))"
    unfolding shape_pattern by blast
  from c(5) have tn: "t \<noteq> []" by auto
  from u have "?u \<noteq> []" by simp
  then have n0: "0 < n" by (cases n) simp_all
  from n i have le: "i + n \<le> length text" by simp
  from u tn have "last t = last ?u" by simp
  with e at_boundary_end [OF n0 le] have "word_boundary text (i + n)" by simp
  moreover from b i have "word_boundary text i"
    by (simp only: append_take_drop_id at_boundary_position)
  moreover from u c have "pattern_text ?u" unfolding pattern_text_iff by blast
  ultimately show ?R using le by (simp add: pattern_span_def)
next
  let ?u = "take n (drop i text)"
  assume ?R
  then have le: "i + n \<le> length text" and pt: "pattern_text ?u"
    and b1: "word_boundary text i" and b2: "word_boundary text (i + n)"
    by (simp_all add: pattern_span_def)
  from pt obtain l d t where
    u: "?u = l @ CHR ''@'' # d @ CHR ''.'' # t"
    and c: "l \<noteq> []" "list_all (in_class local_class) l"
      "d \<noteq> []" "list_all (in_class domain_class) d"
      "2 \<le> length t" "list_all (in_class tld_class) t"
    unfolding pattern_text_iff by blast
  from c(5) have tn: "t \<noteq> []" by auto
  from u have "?u \<noteq> []" by simp
  then have n0: "0 < n" by (cases n) simp_all
  from u tn have "last t = last ?u" by simp
  with b2 at_boundary_end [OF n0 le]
  have e: "at_boundary (Some (last t)) (drop n (drop i text))" by simp
  from b1 i have "at_boundary (prev_at None text i) (?u @ drop n (drop i text))"
    by (simp only: append_take_drop_id at_boundary_position)
  with u c e have "shape pattern (prev_at None text i) ?u (drop n (drop i text))"
    unfolding shape_pattern by blast
  with le show ?L by simp
qed

lemma pattern_span_match:
  assumes "pattern_span text i n"
  shows "i \<le> length text"
    and "match_here pattern (prev_at None text i) (drop i text) \<noteq> None"
    and "match_here pattern (prev_at None text i) (drop i text) = Some k \<Longrightarrow> n \<le> k"
proof -
  from assms show i: "i \<le> length text" by (simp add: pattern_span_def)
  let ?u = "take n (drop i text)" and ?r = "drop n (drop i text)"
  from shape_pattern_span [OF i, THEN iffD2, OF assms]
  have sh: "shape pattern (prev_at None text i) ?u ?r"
    and n: "n \<le> length (drop i text)"
    by blast+
  show "match_here pattern (prev_at None text i) (drop i text) \<noteq> None"
    using match_here_complete [OF sh] unfolding append_take_drop_id .
  assume "match_here pattern (prev_at None text i) (drop i text) = Some k"
  then have "match_here pattern (prev_at None text i) (?u @ ?r) = Some k"
    unfolding append_take_drop_id .
  from match_here_longest [OF this sh] n show "n \<le> k" by simp
qed

lemma findall_first_span:
  assumes "findall pattern None text = m # ms"
  shows "\<exists>i n. pattern_span text i n \<and> m = take n (drop i text) \<and>
           (\<forall>i' n'. pattern_span text i' n' \<longrightarrow> i < i' \<or> (i = i' \<and> n' \<le> n))"
proof -
  from findall_first [OF assms] obtain i n where
    i: "i \<le> length text" and mh: "match_here pattern (prev_at None text i) (drop i text) = Some n"
    and m: "m = take n (drop i text)"
    and first: "\<forall>i'<i. match_here pattern (prev_at None text i') (drop i' text) = None"
    by blast
  from match_here_sound [OF mh]
  have "shape pattern (prev_at None text i) (take n (drop i text)) (drop n (drop i text)) \<and>
          n \<le> length (drop i text)"
    by blast
  then have sp: "pattern_span text i n"
    by (rule shape_pattern_span [OF i, THEN iffD1])
  have mx: "\<forall>i' n'. pattern_span text i' n' \<longrightarrow> i < i' \<or> (i = i' \<and> n' \<le> n)"
  proof (intro allI impI)
    fix i' n'
    assume a: "pattern_span text i' n'"
    have "\<not> i' < i"
    proof
      assume "i' < i"
      with first have "match_here pattern (prev_at None text i') (drop i' text) = None"
        by simp
      with pattern_span_match(2) [OF a] show False by simp
    qed
    moreover have "n' \<le> n" if "i' = i"
    proof -
      from mh that have "match_here pattern (prev_at None text i') (drop i' text) = Some n"
        by simp
      then show ?thesis by (rule pattern_span_match(3) [OF a])
    qed
    ultimately show "i < i' \<or> (i = i' \<and> n' \<le> n)" by (cases "i' = i") auto
  qed
  show ?thesis
  proof (intro exI conjI)
    show "pattern_span text i n" by (rule sp)
    show "m = take n (drop i text)" by (rule m)
    show "\<forall>i' n'. pattern_span text i' n' \<longrightarrow> i < i' \<or> (i = i' \<and> n' \<le> n)" by (rule mx)
  qed
qed

lemma findall_no_span:
  "findall pattern None text = [] \<longleftrightarrow> (\<forall>i n. \<not> pattern_span text i n)"
proof
  assume e: "findall pattern None text = []"
  show "\<forall>i n. \<not> pattern_span text i n"
  proof (intro allI notI)
    fix i n
    assume a: "pattern_span text i n"
    from findall_empty [OF e pattern_span_match(1) [OF a]] pattern_span_match(2) [OF a]
    show False by simp
  qed
next
  assume n: "\<forall>i n. \<not> pattern_span text i n"
  show "findall pattern None text = []"
  proof (cases "findall pattern None text")
    case Nil
    then show ?thesis .
  next
    case (Cons m ms)
    from findall_first_span [OF this] obtain i k where "pattern_span text i k" by blast
    with n show ?thesis by simp
  qed
qed

lemma class_not_edge:
  "in_class local_class c \<Longrightarrow> c \<notin> set edge_chars"
  "in_class domain_class c \<Longrightarrow> c \<notin> set edge_chars"
  "in_class tld_class c \<Longrightarrow> c \<notin> set edge_chars"
  by (auto simp: in_class_def local_class_def domain_class_def tld_class_def edge_chars_def)

lemma pattern_text_no_edge:
  assumes "pattern_text u"
  shows "\<forall>c\<in>set u. c \<notin> set edge_chars"
proof -
  from assms obtain l d t where
    u: "u = l @ CHR ''@'' # d @ CHR ''.'' # t"
    and c: "list_all (in_class local_class) l" "list_all (in_class domain_class) d"
      "list_all (in_class tld_class) t"
    unfolding pattern_text_iff by blast
  have "CHR ''@'' \<notin> set edge_chars" "CHR ''.'' \<notin> set edge_chars"
    by (simp_all add: edge_chars_def)
  with u c show ?thesis
    using class_not_edge by (auto simp: list_all_iff)
qed

lemma strip_chars_id:
  assumes "\<forall>c\<in>set u. c \<notin> set chars"
  shows "strip_chars chars u = u"
proof -
  have "dropWhile (\<lambda>c. c \<in> set chars) v = v" if "\<forall>c\<in>set v. c \<notin> set chars" for v
    using that by (cases v) auto
  from this [of u] this [of "rev u"] assms show ?thesis
    by (simp add: strip_chars_def)
qed

lemma extract_email_Some:
  assumes "extract_email text = Some e"
  shows "\<exists>ms. findall pattern None text = e # ms"
    and "\<exists>i n. pattern_span text i n \<and> e = take n (drop i text) \<and>
           (\<forall>i' n'. pattern_span text i' n' \<longrightarrow> i < i' \<or> (i = i' \<and> n' \<le> n))"
proof -
  from assms obtain m ms where f: "findall pattern None text = m # ms"
    and e: "e = strip_chars edge_chars m"
    by (auto simp: extract_email_def split: list.splits)
  from findall_first_span [OF f] obtain i n where
    s: "pattern_span text i n" "m = take n (drop i text)"
      "\<forall>i' n'. pattern_span text i' n' \<longrightarrow> i < i' \<or> (i = i' \<and> n' \<le> n)"
    by blast
  from s(1,2) have "pattern_text m" by (simp add: pattern_span_def)
  then have "strip_chars edge_chars m = m"
    by (intro strip_chars_id pattern_text_no_edge)
  with e have em: "e = m" by simp
  with f show "\<exists>ms. findall pattern None text = e # ms" by simp
  from s em show "\<exists>i n. pattern_span text i n \<and> e = take n (drop i text) \<and>
           (\<forall>i' n'. pattern_span text i' n' \<longrightarrow> i < i' \<or> (i = i' \<and> n' \<le> n))"
    by blast
qed

lemma extract_email_None:
  "extract_email text = None \<longleftrightarrow> (\<forall>i n. \<not> pattern_span text i n)"
  unfolding findall_no_span [symmetric]
  by (simp add: extract_email_def split: list.splits)

lemma pattern_text_is_address:
  assumes "CHR ''|'' \<notin> set u"
  shows "pattern_text u = is_address u"
proof
  assume "pattern_text u"
  then obtain l d t where
    u: "u = l @ CHR ''@'' # d @ CHR ''.'' # t"
    and c: "l \<noteq> []" "list_all (in_class local_class) l"
      "d \<noteq> []" "list_all (in_class domain_class) d"
      "2 \<le> length t" "list_all (in_class tld_class) t"
    unfolding pattern_text_iff by blast
  from u assms have "CHR ''|'' \<notin> set t" by simp
  with c(6) have "list_all letter t"
    by (auto simp: list_all_iff in_tld_class)
  with u c show "is_address u"
    unfolding is_address_def
    by (intro exI [of _ l] exI [of _ d] exI [of _ t])
      (simp add: list_all_iff in_local_class in_domain_class)
next
  assume "is_address u"
  then obtain l d t where
    "u = l @ CHR ''@'' # d @ CHR ''.'' # t" "l \<noteq> []" "list_all local_char l"
    "d \<noteq> []" "list_all domain_char d" "2 \<le> length t" "list_all letter t"
    unfolding is_address_def by auto
  then show "pattern_text u"
    unfolding pattern_text_iff
    by (intro exI [of _ l] exI [of _ d] exI [of _ t])
      (simp add: list_all_iff in_local_class in_domain_class in_tld_class)
qed

lemma pattern_span_address_span:
  assumes "CHR ''|'' \<notin> set text"
  shows "pattern_span text i n = address_span text i n"
proof -
  have "CHR ''|'' \<notin> set (take n (drop i text))"
    using assms by (meson in_set_dropD in_set_takeD)
  from pattern_text_is_address [OF this] show ?thesis
    by (simp add: pattern_span_def address_span_def)
qed

lemma extract_email_example:
  "extract_email ''contact: <jane.doe+dev@example.co.uk> for info'' =
     Some ''jane.doe+dev@example.co.uk''"
  by code_simp

text \<open>
  C6, as amended. For a text without the character \<^verbatim>\<open>|\<close>: \<^verbatim>\<open>extract_email\<close> returns
  \<^verbatim>\<open>None\<close> exactly when the text has no address span, and otherwise the leftmost address
  span, the longest one at that position; the characters \<^verbatim>\<open>"<>[]()\<close> cannot occur in it,
  so nothing is stripped. For the text of the example the result is
  \<^verbatim>\<open>jane.doe+dev@example.co.uk\<close>.
\<close>

theorem extract_email_first_address:
  assumes "CHR ''|'' \<notin> set text"
  shows "(extract_email text = None \<longleftrightarrow> (\<forall>i n. \<not> address_span text i n)) \<and>
         (\<forall>e. extract_email text = Some e \<longrightarrow>
            (\<exists>i n. address_span text i n \<and> e = take n (drop i text) \<and>
               (\<forall>i' n'. address_span text i' n' \<longrightarrow> i < i' \<or> (i = i' \<and> n' \<le> n)))) \<and>
         extract_email ''contact: <jane.doe+dev@example.co.uk> for info'' =
           Some ''jane.doe+dev@example.co.uk''"
  using extract_email_None [of "text"] extract_email_Some(2) [of "text"] extract_email_example
  by (simp add: pattern_span_address_span [OF assms])

theorem extract_email_first_address_witness:
  "CHR ''|'' \<notin> set ''contact: <jane.doe+dev@example.co.uk> for info'' \<and>
   extract_email ''contact: <jane.doe+dev@example.co.uk> for info'' =
     Some ''jane.doe+dev@example.co.uk'' \<and>
   (\<exists>i n. address_span ''contact: <jane.doe+dev@example.co.uk> for info'' i n \<and>
      ''jane.doe+dev@example.co.uk'' =
        take n (drop i ''contact: <jane.doe+dev@example.co.uk> for info''))"
proof -
  have n: "CHR ''|'' \<notin> set ''contact: <jane.doe+dev@example.co.uk> for info''" by simp
  from extract_email_first_address [OF n] n show ?thesis by blast
qed

text \<open>
  C6 as stated fails: \<^verbatim>\<open>x@y.abc\<close> matches the grammar and is a substring of
  \<^verbatim>\<open>x@y.abc1\<close>, for which \<^verbatim>\<open>extract_email\<close> returns \<^verbatim>\<open>None\<close>: no match ends at a
  word boundary.
\<close>

theorem extract_email_grammar_counterexample:
  "is_address (take 7 ''x@y.abc1'') \<and> extract_email ''x@y.abc1'' = None"
proof -
  have "is_address ''x@y.abc''"
    unfolding is_address_def
    by (intro exI [of _ "''x''"] exI [of _ "''y''"] exI [of _ "''abc''"])
      (simp add: local_char_def domain_char_def letter_def)
  moreover have "extract_email ''x@y.abc1'' = None" by code_simp
  ultimately show ?thesis by simp
qed

text \<open>
  C10. A value returned by \<^verbatim>\<open>extract_email\<close> is not empty, contains \<^verbatim>\<open>@\<close>, and is
  the first match of \<^verbatim>\<open>findall\<close> unchanged: none of the characters \<^verbatim>\<open>"<>[]()\<close> occurs
  in it, and stripping them leaves it as it is.
\<close>

theorem extract_email_raw_match:
  assumes "extract_email text = Some e"
  shows "e \<noteq> [] \<and> CHR ''@'' \<in> set e \<and> (\<exists>ms. findall pattern None text = e # ms) \<and>
         set e \<inter> set edge_chars = {} \<and> strip_chars edge_chars e = e"
proof -
  from extract_email_Some [OF assms] obtain i n ms where
    f: "findall pattern None text = e # ms" and s: "pattern_span text i n"
    and e: "e = take n (drop i text)"
    by blast
  from s e have p: "pattern_text e" by (simp add: pattern_span_def)
  then have "e \<noteq> []" "CHR ''@'' \<in> set e"
    unfolding pattern_text_iff by auto
  moreover from pattern_text_no_edge [OF p] have d: "set e \<inter> set edge_chars = {}" by auto
  moreover from pattern_text_no_edge [OF p] have "strip_chars edge_chars e = e"
    by (rule strip_chars_id)
  ultimately show ?thesis using f by blast
qed

theorem extract_email_raw_match_witness:
  "extract_email ''Contact: <alice@example.org>'' = Some ''alice@example.org'' \<and>
   findall pattern None ''Contact: <alice@example.org>'' = [''alice@example.org''] \<and>
   strip_chars edge_chars ''alice@example.org'' = ''alice@example.org''"
proof -
  have a: "extract_email ''Contact: <alice@example.org>'' = Some ''alice@example.org''"
    by code_simp
  have b: "findall pattern None ''Contact: <alice@example.org>'' = [''alice@example.org'']"
    by code_simp
  from extract_email_raw_match [OF a] a b show ?thesis by simp
qed

section \<open>The batch runner: saving, restarting, exceptions\<close>

lemma attempts_log_line:
  "attempts (log_line e w) = attempts w @ (if is_processing e then [e] else [])"
  by (simp add: attempts_def log_line_def)

lemma attempts_requests [simp]: "attempts (w\<lparr>requests := x\<rparr>) = attempts w"
  by (simp add: attempts_def)

lemma attempts_sleeps [simp]: "attempts (w\<lparr>sleeps := x\<rparr>) = attempts w"
  by (simp add: attempts_def)

lemma attempts_clock_reads [simp]: "attempts (w\<lparr>clock_reads := x\<rparr>) = attempts w"
  by (simp add: attempts_def)

lemma attempts_http_get: "attempts (snd (http_get nt tr u a w)) = attempts w"
  by (simp add: http_get_snd)

lemma attempts_get_remaining_requests:
  "attempts (snd (get_remaining_requests nt h w)) = attempts w"
  using get_remaining_requests_snd [of nt h w] by auto

lemma attempts_check_and_switch_key:
  "attempts (snd (snd (check_and_switch_key nt h w))) = attempts w"
  using attempts_get_remaining_requests [of nt h w]
  by (cases "get_remaining_requests nt h w")
    (auto simp: check_and_switch_key_def Let_def attempts_log_line is_processing_def
      split: sum.splits bool.splits)

lemma attempts_check_and_switch_key03:
  "attempts (snd (snd (check_and_switch_key03 nt h w))) = attempts w"
  using attempts_get_remaining_requests [of nt h w]
  by (cases "get_remaining_requests nt h w")
    (auto simp: check_and_switch_key03_def Let_def attempts_log_line is_processing_def
      split: sum.splits bool.splits)

lemma attempts_get_email_from_readme:
  "attempts (snd (get_email_from_readme nt u a w)) = attempts w"
  by (simp add: get_email_from_readme_snd)

lemma attempts_fetch_user_info:
  "attempts (snd (snd (fetch_user_info nt h w u))) = attempts w"
proof (cases "get_headers h")
  case (Inl e)
  then show ?thesis by (simp add: fetch_user_info_def)
next
  case (Inr a)
  obtain x w1 where g: "http_get nt RetrySession (user_url (username_of u)) a w = (x, w1)"
    by (cases "http_get nt RetrySession (user_url (username_of u)) a w")
  with attempts_http_get [of nt RetrySession "user_url (username_of u)" a w]
  have w1: "attempts w1 = attempts w" by simp
  show ?thesis
    using Inr g w1 attempts_get_email_from_readme [of nt "username_of u" a w1]
    by (auto simp: fetch_user_info_def Let_def attempts_log_line is_processing_def split_beta
        split: sum.splits)
qed

lemma attempts_get_user_info:
  "attempts (snd (snd (get_user_info_from_github_api nt h w u))) = attempts w"
proof -
  obtain e h1 w1 where c: "check_and_switch_key nt h w = (e, h1, w1)"
    by (cases "check_and_switch_key nt h w")
  with attempts_check_and_switch_key [of nt h w] have "attempts w1 = attempts w" by simp
  with c attempts_fetch_user_info [of nt h1 w1 u] show ?thesis
    by (cases e) (simp_all add: get_user_info_from_github_api_def)
qed

lemma attempts_get_user_info03:
  "attempts (snd (snd (get_user_info_from_github_api03 nt h w u))) = attempts w"
proof -
  obtain e h1 w1 where c: "check_and_switch_key03 nt h w = (e, h1, w1)"
    by (cases "check_and_switch_key03 nt h w")
  with attempts_check_and_switch_key03 [of nt h w] have "attempts w1 = attempts w" by simp
  with c attempts_fetch_user_info [of nt h1 w1 u] show ?thesis
    by (cases e) (simp_all add: get_user_info_from_github_api03_def)
qed

lemma now_fst: "fst (now clk w) = clk (clock_reads w)"
  and now_snd: "snd (now clk w) = w\<lparr>clock_reads := Suc (clock_reads w)\<rparr>"
  by (simp_all add: now_def)

lemma save_progress_due:
  assumes "save_interval < clk (clock_reads (env st)) - last_save_time st"
  shows "input_csv (disk (save_progress clk st)) = input_df st"
    and "output_csv (disk (save_progress clk st)) =
           (if new_rows st = [] then output_csv (disk st) else Some (output_df st @ new_rows st))"
    and "new_rows (save_progress clk st) = []"
    and "output_df (save_progress clk st) = output_df st @ new_rows st"
    and "last_save_time (save_progress clk st) = clk (Suc (clock_reads (env st)))"
  using assms by (simp_all add: save_progress_def now_def Let_def log_line_def)

lemma save_progress_not_due:
  assumes "\<not> save_interval < clk (clock_reads (env st)) - last_save_time st"
  shows "disk (save_progress clk st) = disk st"
    and "new_rows (save_progress clk st) = new_rows st"
    and "output_df (save_progress clk st) = output_df st"
    and "last_save_time (save_progress clk st) = last_save_time st"
  using assms by (simp_all add: save_progress_def now_def)

lemma save_progress_keeps:
  "all_rows (save_progress clk st) = all_rows st"
  "processed_profiles (save_progress clk st) = processed_profiles st"
  "input_df (save_progress clk st) = input_df st"
  "attempts (env (save_progress clk st)) = attempts (env st)"
  by (simp_all add: save_progress_def now_def Let_def all_rows_def attempts_log_line
      is_processing_def)

lemma save_progress_saved:
  "existing_rows (disk st) = output_df st \<Longrightarrow>
   existing_rows (disk (save_progress clk st)) = output_df (save_progress clk st)"
  by (simp add: save_progress_def now_def Let_def existing_rows_def)

lemma final_save_disk:
  "input_csv (disk (final_save st)) = input_df st"
  "output_csv (disk (final_save st)) =
     (if new_rows st = [] then output_csv (disk st) else Some (output_df st @ new_rows st))"
  by (simp_all add: final_save_def Let_def)

lemma final_save_all_rows:
  "existing_rows (disk st) = output_df st \<Longrightarrow> existing_rows (disk (final_save st)) = all_rows st"
  by (simp add: final_save_def Let_def existing_rows_def all_rows_def)

lemma final_save_env: "env (final_save st) = env st"
  by (simp add: final_save_def Let_def)

lemma process_row_skip:
  "Status r = Some ''Done'' \<or> Profile_URL r \<in> processed_profiles st \<Longrightarrow>
   process_row nt clk st (index, r) = st"
  by (simp add: process_row_def)

lemma process_row_raise:
  assumes "\<not> (Status r = Some ''Done'' \<or> Profile_URL r \<in> processed_profiles st)"
    and "get_user_info_from_github_api nt (github_api_handler st)
           (log_line (Processing (Username r) (Profile_URL r)) (env st)) (Profile_URL r)
         = (Inl e, h, w)"
  shows "process_row nt clk st (index, r) =
           st\<lparr>github_api_handler := h, env := log_line (ErrorProcessing (Profile_URL r) e) w\<rparr>"
  using assms by (simp add: process_row_def Let_def)

lemma process_row_return:
  assumes "\<not> (Status r = Some ''Done'' \<or> Profile_URL r \<in> processed_profiles st)"
    and "get_user_info_from_github_api nt (github_api_handler st)
           (log_line (Processing (Username r) (Profile_URL r)) (env st)) (Profile_URL r)
         = (Inr email, h, w)"
  shows "process_row nt clk st (index, r) =
           save_progress clk (record_result index r email (st\<lparr>github_api_handler := h, env := w\<rparr>))"
  using assms by (simp add: process_row_def Let_def)

lemma startup_saved:
  "existing_rows (disk (startup keys t0 fs w)) = output_df (startup keys t0 fs w)"
  "processed_profiles (startup keys t0 fs w) =
     set (map out_Profile_URL (all_rows (startup keys t0 fs w)))"
  "all_rows (startup keys t0 fs w) = existing_rows fs"
  "input_df (startup keys t0 fs w) = input_csv fs"
  by (simp_all add: startup_def all_rows_def existing_rows_def split: option.splits)

lemma record_result_keeps:
  "all_rows (record_result index r email st) =
     all_rows st @ (if truthy email
                    then [\<lparr>out_Username = Username r, out_User_ID = User_ID r,
                           out_Profile_URL = Profile_URL r, out_Email = email\<rparr>]
                    else [])"
  "processed_profiles (record_result index r email st) =
     (if truthy email then insert (Profile_URL r) (processed_profiles st)
      else processed_profiles st)"
  "disk (record_result index r email st) = disk st"
  "output_df (record_result index r email st) = output_df st"
  "env (record_result index r email st) = env st"
  by (simp_all add: record_result_def all_rows_def)

lemma all_rows_update [simp]:
  "all_rows (st\<lparr>github_api_handler := h\<rparr>) = all_rows st"
  "all_rows (st\<lparr>env := w\<rparr>) = all_rows st"
  by (simp_all add: all_rows_def)

lemma process_row_cases:
  obtains
    (skip) "Status r = Some ''Done'' \<or> Profile_URL r \<in> processed_profiles st"
      "process_row nt clk st (index, r) = st"
  | (raise) e h w where
      "\<not> (Status r = Some ''Done'' \<or> Profile_URL r \<in> processed_profiles st)"
      "attempts w = attempts (env st) @ [Processing (Username r) (Profile_URL r)]"
      "process_row nt clk st (index, r) =
         st\<lparr>github_api_handler := h, env := log_line (ErrorProcessing (Profile_URL r) e) w\<rparr>"
  | (return) email h w where
      "\<not> (Status r = Some ''Done'' \<or> Profile_URL r \<in> processed_profiles st)"
      "attempts w = attempts (env st) @ [Processing (Username r) (Profile_URL r)]"
      "process_row nt clk st (index, r) =
         save_progress clk (record_result index r email (st\<lparr>github_api_handler := h, env := w\<rparr>))"
proof (cases "Status r = Some ''Done'' \<or> Profile_URL r \<in> processed_profiles st")
  case True
  then show ?thesis using process_row_skip [of r st nt clk index] skip by blast
next
  case False
  let ?w0 = "log_line (Processing (Username r) (Profile_URL r)) (env st)"
  obtain x h w where
    g: "get_user_info_from_github_api nt (github_api_handler st) ?w0 (Profile_URL r) = (x, h, w)"
    by (cases "get_user_info_from_github_api nt (github_api_handler st) ?w0 (Profile_URL r)")
  from attempts_get_user_info [of nt "github_api_handler st" ?w0 "Profile_URL r"] g
  have a: "attempts w = attempts (env st) @ [Processing (Username r) (Profile_URL r)]"
    by (simp add: attempts_log_line is_processing_def)
  show ?thesis
  proof (cases x)
    case (Inl e)
    with g False a process_row_raise [of r st nt e h w clk index] raise show ?thesis by blast
  next
    case (Inr email)
    with g False a process_row_return [of r st nt email h w clk index] return show ?thesis
      by blast
  qed
qed

lemma attempts_ErrorProcessing:
  "attempts (log_line (ErrorProcessing u e) w) = attempts w"
  by (simp add: attempts_log_line is_processing_def)

lemma process_row_attempts:
  "attempts (env (process_row nt clk st (index, r))) =
     attempts (env st) @
       (if Status r = Some ''Done'' \<or> Profile_URL r \<in> processed_profiles st then []
        else [Processing (Username r) (Profile_URL r)])"
  by (rule process_row_cases [where r = r and st = st and nt = nt and clk = clk and index = index])
    (simp_all add: attempts_ErrorProcessing save_progress_keeps record_result_keeps)

lemma process_row_step:
  assumes "existing_rows (disk st) = output_df st"
    and "processed_profiles st = set (map out_Profile_URL (all_rows st))"
  shows "existing_rows (disk (process_row nt clk st (index, r))) =
           output_df (process_row nt clk st (index, r))"
    and "processed_profiles (process_row nt clk st (index, r)) =
           set (map out_Profile_URL (all_rows (process_row nt clk st (index, r))))"
    and "all_rows (process_row nt clk st (index, r)) = all_rows st \<or>
         (\<exists>x. all_rows (process_row nt clk st (index, r)) = all_rows st @ [x] \<and>
              out_Profile_URL x = Profile_URL r \<and> Status r \<noteq> Some ''Done'' \<and>
              Profile_URL r \<notin> processed_profiles st)"
proof -
  show "existing_rows (disk (process_row nt clk st (index, r))) =
           output_df (process_row nt clk st (index, r))"
    by (insert assms(1), rule process_row_cases [where r = r and st = st and nt = nt and clk = clk and index = index])
      (simp_all add: save_progress_saved record_result_keeps)
  show "processed_profiles (process_row nt clk st (index, r)) =
           set (map out_Profile_URL (all_rows (process_row nt clk st (index, r))))"
    by (insert assms(2), rule process_row_cases [where r = r and st = st and nt = nt and clk = clk and index = index])
      (auto simp: save_progress_keeps record_result_keeps)
  show "all_rows (process_row nt clk st (index, r)) = all_rows st \<or>
         (\<exists>x. all_rows (process_row nt clk st (index, r)) = all_rows st @ [x] \<and>
              out_Profile_URL x = Profile_URL r \<and> Status r \<noteq> Some ''Done'' \<and>
              Profile_URL r \<notin> processed_profiles st)"
    by (rule process_row_cases [where r = r and st = st and nt = nt and clk = clk and index = index])
      (auto simp: save_progress_keeps record_result_keeps)
qed

lemma process_row_grows:
  "processed_profiles st \<subseteq> processed_profiles (process_row nt clk st (index, r))"
  by (rule process_row_cases [where r = r and st = st and nt = nt and clk = clk and index = index])
    (auto simp: save_progress_keeps record_result_keeps)

lemma run_rows_Nil: "run_rows nt clk st [] = st"
  and run_rows_Cons: "run_rows nt clk st (ir # irs) = run_rows nt clk (process_row nt clk st ir) irs"
  and run_rows_append:
    "run_rows nt clk st (xs @ ys) = run_rows nt clk (run_rows nt clk st xs) ys"
  by (simp_all add: run_rows_def)

lemma run_rows_appends:
  assumes "existing_rows (disk st) = output_df st"
    and "processed_profiles st = set (map out_Profile_URL (all_rows st))"
  shows "existing_rows (disk (run_rows nt clk st irs)) = output_df (run_rows nt clk st irs) \<and>
         (\<exists>added. all_rows (run_rows nt clk st irs) = all_rows st @ added \<and>
            distinct (map out_Profile_URL added) \<and>
            set (map out_Profile_URL added) \<inter> set (map out_Profile_URL (all_rows st)) = {} \<and>
            (\<forall>x\<in>set added. \<exists>ir\<in>set irs.
               Profile_URL (snd ir) = out_Profile_URL x \<and> Status (snd ir) \<noteq> Some ''Done''))"
  using assms
proof (induction irs arbitrary: st)
  case Nil
  then show ?case by (simp add: run_rows_Nil)
next
  case (Cons ir irs)
  obtain index r where ir: "ir = (index, r)" by (cases ir)
  let ?st1 = "process_row nt clk st (index, r)"
  note step = process_row_step [OF Cons.prems, of nt clk index r]
  from Cons.IH [OF step(1) step(2)] obtain added where
    s: "existing_rows (disk (run_rows nt clk ?st1 irs)) = output_df (run_rows nt clk ?st1 irs)"
    and a: "all_rows (run_rows nt clk ?st1 irs) = all_rows ?st1 @ added"
      "distinct (map out_Profile_URL added)"
      "set (map out_Profile_URL added) \<inter> set (map out_Profile_URL (all_rows ?st1)) = {}"
      "\<forall>x\<in>set added. \<exists>ir\<in>set irs.
          Profile_URL (snd ir) = out_Profile_URL x \<and> Status (snd ir) \<noteq> Some ''Done''"
    by blast
  from step(3) show ?case
  proof
    assume e: "all_rows ?st1 = all_rows st"
    with a have "all_rows (run_rows nt clk ?st1 irs) = all_rows st @ added \<and>
        distinct (map out_Profile_URL added) \<and>
        set (map out_Profile_URL added) \<inter> set (map out_Profile_URL (all_rows st)) = {} \<and>
        (\<forall>x\<in>set added. \<exists>ir\<in>set (ir # irs).
           Profile_URL (snd ir) = out_Profile_URL x \<and> Status (snd ir) \<noteq> Some ''Done'')"
      by auto
    with s show ?thesis unfolding ir run_rows_Cons by blast
  next
    assume "\<exists>x. all_rows ?st1 = all_rows st @ [x] \<and> out_Profile_URL x = Profile_URL r \<and>
        Status r \<noteq> Some ''Done'' \<and> Profile_URL r \<notin> processed_profiles st"
    then obtain x where x: "all_rows ?st1 = all_rows st @ [x]" "out_Profile_URL x = Profile_URL r"
      "Status r \<noteq> Some ''Done''" "Profile_URL r \<notin> processed_profiles st"
      by blast
    from x(2,4) Cons.prems(2) have nx: "out_Profile_URL x \<notin> set (map out_Profile_URL (all_rows st))"
      by simp
    have "all_rows (run_rows nt clk ?st1 irs) = all_rows st @ (x # added) \<and>
        distinct (map out_Profile_URL (x # added)) \<and>
        set (map out_Profile_URL (x # added)) \<inter> set (map out_Profile_URL (all_rows st)) = {} \<and>
        (\<forall>y\<in>set (x # added). \<exists>ir\<in>set (ir # irs).
           Profile_URL (snd ir) = out_Profile_URL y \<and> Status (snd ir) \<noteq> Some ''Done'')"
      using a x nx ir by auto
    with s show ?thesis unfolding ir run_rows_Cons by blast
  qed
qed

lemma run_rows_grows:
  "processed_profiles st \<subseteq> processed_profiles (run_rows nt clk st irs) \<and>
   set (attempts (env st)) \<subseteq> set (attempts (env (run_rows nt clk st irs)))"
proof (induction irs arbitrary: st)
  case Nil
  show ?case by (simp add: run_rows_Nil)
next
  case (Cons ir irs)
  obtain index r where ir: "ir = (index, r)" by (cases ir)
  from Cons.IH [of "process_row nt clk st (index, r)"]
    process_row_grows [of st nt clk index r] process_row_attempts [of nt clk st index r]
  show ?case unfolding ir run_rows_Cons by auto
qed

lemma run_rows_attempted:
  "\<forall>ir\<in>set irs.
     Processing (Username (snd ir)) (Profile_URL (snd ir))
       \<in> set (attempts (env (run_rows nt clk st irs))) \<or>
     Status (snd ir) = Some ''Done'' \<or>
     Profile_URL (snd ir) \<in> processed_profiles (run_rows nt clk st irs)"
proof (induction irs arbitrary: st)
  case Nil
  show ?case by simp
next
  case (Cons ir irs)
  obtain index r where ir: "ir = (index, r)" by (cases ir)
  let ?st1 = "process_row nt clk st (index, r)"
  have "Processing (Username r) (Profile_URL r) \<in> set (attempts (env ?st1)) \<or>
        Status r = Some ''Done'' \<or> Profile_URL r \<in> processed_profiles ?st1"
    using process_row_attempts [of nt clk st index r] process_row_grows [of st nt clk index r]
    by auto
  with run_rows_grows [of ?st1 nt clk irs] Cons.IH [of ?st1]
  show ?case unfolding ir run_rows_Cons by auto
qed

lemma snd_enumerate: "ir \<in> set (enumerate n xs) \<Longrightarrow> snd ir \<in> set xs"
  by (cases ir) (auto simp: in_set_enumerate_eq)

lemma main02_appends:
  "\<exists>added. existing_rows (fst (main02 nt clk keys_env fs w)) = existing_rows fs @ added \<and>
     distinct (map out_Profile_URL added) \<and>
     set (map out_Profile_URL added) \<inter> set (map out_Profile_URL (existing_rows fs)) = {} \<and>
     (\<forall>x\<in>set added. \<exists>r\<in>set (input_csv fs).
        Profile_URL r = out_Profile_URL x \<and> Status r \<noteq> Some ''Done'')"
proof (cases keys_env)
  case None
  then have "fst (main02 nt clk keys_env fs w) = fs"
    by (simp add: main02_def now_def)
  then show ?thesis by simp
next
  case (Some ks)
  let ?init = "startup (split_on CHR '','' ks) (fst (now clk w)) fs (snd (now clk w))"
  let ?fin = "run_rows nt clk ?init (enumerate 0 (input_csv fs))"
  have m: "fst (main02 nt clk keys_env fs w) = disk (final_save ?fin)"
    using Some by (simp add: main02_def Let_def split_beta)
  have i1: "existing_rows (disk ?init) = output_df ?init" by (rule startup_saved(1))
  have i2: "processed_profiles ?init = set (map out_Profile_URL (all_rows ?init))"
    by (rule startup_saved(2))
  note ra = run_rows_appends [OF i1 i2, of nt clk "enumerate 0 (input_csv fs)"]
  from ra have s: "existing_rows (disk ?fin) = output_df ?fin" by (rule conjunct1)
  from ra [THEN conjunct2] obtain added where
    a: "all_rows ?fin = all_rows ?init @ added" "distinct (map out_Profile_URL added)"
      "set (map out_Profile_URL added) \<inter> set (map out_Profile_URL (all_rows ?init)) = {}"
      "\<forall>x\<in>set added. \<exists>ir\<in>set (enumerate 0 (input_csv fs)).
          Profile_URL (snd ir) = out_Profile_URL x \<and> Status (snd ir) \<noteq> Some ''Done''"
    by blast
  have src: "\<forall>x\<in>set added. \<exists>r\<in>set (input_csv fs).
        Profile_URL r = out_Profile_URL x \<and> Status r \<noteq> Some ''Done''"
  proof
    fix x assume "x \<in> set added"
    with a(4) obtain ir where ir: "ir \<in> set (enumerate 0 (input_csv fs))"
      "Profile_URL (snd ir) = out_Profile_URL x" "Status (snd ir) \<noteq> Some ''Done''"
      by blast
    from snd_enumerate [OF ir(1)] ir(2,3)
    show "\<exists>r\<in>set (input_csv fs). Profile_URL r = out_Profile_URL x \<and> Status r \<noteq> Some ''Done''"
      by (intro bexI [of _ "snd ir"]) simp_all
  qed
  have e: "existing_rows (fst (main02 nt clk keys_env fs w)) = existing_rows fs @ added"
    unfolding m final_save_all_rows [OF s] a(1) startup_saved(3) ..
  have d: "set (map out_Profile_URL added) \<inter> set (map out_Profile_URL (existing_rows fs)) = {}"
    using a(3) unfolding startup_saved(3) .
  show ?thesis
  proof (intro exI conjI)
    show "existing_rows (fst (main02 nt clk keys_env fs w)) = existing_rows fs @ added" by (rule e)
    show "distinct (map out_Profile_URL added)" by (rule a(2))
    show "set (map out_Profile_URL added) \<inter> set (map out_Profile_URL (existing_rows fs)) = {}"
      by (rule d)
    show "\<forall>x\<in>set added. \<exists>r\<in>set (input_csv fs).
        Profile_URL r = out_Profile_URL x \<and> Status r \<noteq> Some ''Done''" by (rule src)
  qed
qed

lemma lookup_row_attempts:
  "attempts (snd (snd (lookup_row nt st r))) =
     attempts (env st) @ [Processing (Username r) (Profile_URL r)]"
  by (simp add: lookup_row_def attempts_get_user_info attempts_log_line is_processing_def)

lemma process_row_raise_row:
  assumes "\<not> (Status r = Some ''Done'' \<or> Profile_URL r \<in> processed_profiles st)"
    and "fst (lookup_row nt st r) = Inl e"
  shows "process_row nt clk st (index, r) =
           st\<lparr>github_api_handler := fst (snd (lookup_row nt st r)),
              env := log_line (ErrorProcessing (Profile_URL r) e) (snd (snd (lookup_row nt st r)))\<rparr>"
proof -
  from assms(2) have "lookup_row nt st r =
      (Inl e, fst (snd (lookup_row nt st r)), snd (snd (lookup_row nt st r)))"
    by (metis prod.collapse)
  then show ?thesis
    unfolding lookup_row_def by (rule process_row_raise [OF assms(1)])
qed

lemma process_row_return_row:
  assumes "\<not> (Status r = Some ''Done'' \<or> Profile_URL r \<in> processed_profiles st)"
    and "fst (lookup_row nt st r) = Inr email"
  shows "process_row nt clk st (index, r) =
           save_progress clk (record_result index r email
             (st\<lparr>github_api_handler := fst (snd (lookup_row nt st r)),
                 env := snd (snd (lookup_row nt st r))\<rparr>))"
proof -
  from assms(2) have "lookup_row nt st r =
      (Inr email, fst (snd (lookup_row nt st r)), snd (snd (lookup_row nt st r)))"
    by (metis prod.collapse)
  then show ?thesis
    unfolding lookup_row_def by (rule process_row_return [OF assms(1)])
qed

lemma process_row03_raise:
  assumes "fst (lookup_row03 nt st r) = Inl e"
  shows "process_row03 nt st r =
           (fst (snd (lookup_row03 nt st r)),
            log_line (ErrorProcessing (Profile_URL r) e) (snd (snd (lookup_row03 nt st r))),
            snd (snd st))"
proof -
  obtain h0 w out where st: "st = (h0, w, out)" by (cases st)
  obtain x h w1 where g: "get_user_info_from_github_api03 nt h0
      (log_line (Processing (Username r) (Profile_URL r)) w) (Profile_URL r) = (x, h, w1)"
    by (cases "get_user_info_from_github_api03 nt h0
      (log_line (Processing (Username r) (Profile_URL r)) w) (Profile_URL r)")
  with assms st show ?thesis
    by (simp add: process_row03_def lookup_row03_def Let_def)
qed

lemma process_row03_attempts:
  "attempts (fst (snd (process_row03 nt st r))) =
     attempts (fst (snd st)) @ [Processing (Username r) (Profile_URL r)]"
proof -
  obtain h0 w out where st: "st = (h0, w, out)" by (cases st)
  let ?w0 = "log_line (Processing (Username r) (Profile_URL r)) w"
  obtain x h w1 where g: "get_user_info_from_github_api03 nt h0 ?w0 (Profile_URL r) = (x, h, w1)"
    by (cases "get_user_info_from_github_api03 nt h0 ?w0 (Profile_URL r)")
  from attempts_get_user_info03 [of nt h0 ?w0 "Profile_URL r"] g
  have "attempts w1 = attempts w @ [Processing (Username r) (Profile_URL r)]"
    by (simp add: attempts_log_line is_processing_def)
  with st g show ?thesis
    by (cases x) (simp_all add: process_row03_def Let_def attempts_ErrorProcessing)
qed

lemma foldl_process_row03_attempts:
  "attempts (fst (snd (foldl (process_row03 nt) st rows))) =
     attempts (fst (snd st)) @ map (\<lambda>r. Processing (Username r) (Profile_URL r)) rows"
  by (induction rows arbitrary: st) (simp_all add: process_row03_attempts)

lemma main03_attempts:
  "attempts (snd (main03 nt (Some ks) fs w)) =
     attempts w @ map (\<lambda>r. Processing (Username r) (Profile_URL r)) (input_csv fs)"
proof -
  let ?st = "foldl (process_row03 nt)
      (init_handler03 (split_on CHR '','' ks), log_line ReadingInput w, []) (input_csv fs)"
  have "snd (main03 nt (Some ks) fs w) = log_line WrittenOutput (fst (snd ?st))"
    by (simp add: main03_def split_beta)
  then show ?thesis
    by (simp add: foldl_process_row03_attempts attempts_log_line is_processing_def)
qed

text \<open>
  C7. In \<^verbatim>\<open>cloud02.py\<close>, when the lookup raises for a row that is not skipped, the loop
  goes on over the rows after it from the same state, in which only the handler and the
  world have changed and the error has been logged; so every row of the input has been
  attempted when the loop ends, unless it was marked done or its profile was present.
  The same holds in \<^verbatim>\<open>cloud03.py\<close>, where nothing is skipped: one lookup is attempted
  for each row of the input, in order, whatever the lookups raise.
\<close>

theorem batch_survives_exceptions:
  "(\<forall>e. \<not> (Status r = Some ''Done'' \<or>
            Profile_URL r \<in> processed_profiles (run_rows nt clk st pre)) \<and>
        fst (lookup_row nt (run_rows nt clk st pre) r) = Inl e \<longrightarrow>
        run_rows nt clk st (pre @ (index, r) # post) =
          run_rows nt clk
            ((run_rows nt clk st pre)
               \<lparr>github_api_handler := fst (snd (lookup_row nt (run_rows nt clk st pre) r)),
                env := log_line (ErrorProcessing (Profile_URL r) e)
                         (snd (snd (lookup_row nt (run_rows nt clk st pre) r)))\<rparr>)
            post) \<and>
   (\<forall>ir\<in>set irs.
      Processing (Username (snd ir)) (Profile_URL (snd ir))
        \<in> set (attempts (env (run_rows nt clk st irs))) \<or>
      Status (snd ir) = Some ''Done'' \<or>
      Profile_URL (snd ir) \<in> processed_profiles (run_rows nt clk st irs)) \<and>
   (\<forall>e. fst (lookup_row03 nt (foldl (process_row03 nt) st3 pre3) r) = Inl e \<longrightarrow>
        foldl (process_row03 nt) st3 (pre3 @ r # post3) =
          foldl (process_row03 nt)
            (fst (snd (lookup_row03 nt (foldl (process_row03 nt) st3 pre3) r)),
             log_line (ErrorProcessing (Profile_URL r) e)
               (snd (snd (lookup_row03 nt (foldl (process_row03 nt) st3 pre3) r))),
             snd (snd (foldl (process_row03 nt) st3 pre3)))
            post3) \<and>
   attempts (snd (main03 nt (Some ks) fs w)) =
     attempts w @ map (\<lambda>r. Processing (Username r) (Profile_URL r)) (input_csv fs)"
proof (intro conjI allI impI)
  fix e
  assume "\<not> (Status r = Some ''Done'' \<or>
            Profile_URL r \<in> processed_profiles (run_rows nt clk st pre)) \<and>
        fst (lookup_row nt (run_rows nt clk st pre) r) = Inl e"
  then have a: "\<not> (Status r = Some ''Done'' \<or>
            Profile_URL r \<in> processed_profiles (run_rows nt clk st pre))"
    and b: "fst (lookup_row nt (run_rows nt clk st pre) r) = Inl e"
    by blast+
  show "run_rows nt clk st (pre @ (index, r) # post) =
          run_rows nt clk
            ((run_rows nt clk st pre)
               \<lparr>github_api_handler := fst (snd (lookup_row nt (run_rows nt clk st pre) r)),
                env := log_line (ErrorProcessing (Profile_URL r) e)
                         (snd (snd (lookup_row nt (run_rows nt clk st pre) r)))\<rparr>)
            post"
    unfolding run_rows_append run_rows_Cons process_row_raise_row [OF a b] ..
next
  show "\<forall>ir\<in>set irs.
      Processing (Username (snd ir)) (Profile_URL (snd ir))
        \<in> set (attempts (env (run_rows nt clk st irs))) \<or>
      Status (snd ir) = Some ''Done'' \<or>
      Profile_URL (snd ir) \<in> processed_profiles (run_rows nt clk st irs)"
    by (rule run_rows_attempted)
next
  fix e
  assume b: "fst (lookup_row03 nt (foldl (process_row03 nt) st3 pre3) r) = Inl e"
  show "foldl (process_row03 nt) st3 (pre3 @ r # post3) =
          foldl (process_row03 nt)
            (fst (snd (lookup_row03 nt (foldl (process_row03 nt) st3 pre3) r)),
             log_line (ErrorProcessing (Profile_URL r) e)
               (snd (snd (lookup_row03 nt (foldl (process_row03 nt) st3 pre3) r))),
             snd (snd (foldl (process_row03 nt) st3 pre3)))
            post3"
    unfolding foldl_append foldl_Cons process_row03_raise [OF b] ..
next
  show "attempts (snd (main03 nt (Some ks) fs w)) =
     attempts w @ map (\<lambda>r. Processing (Username r) (Profile_URL r)) (input_csv fs)"
    by (rule main03_attempts)
qed

lemma state0_fields:
  "Status row_bob = None" "processed_profiles state0 = {}" "env state0 = log_line ReadingInput world0"
  "last_save_time state0 = 0" "output_df state0 = []" "new_rows state0 = []"
  "input_df state0 = [row_bob, row_alice]" "disk state0 = files0"
  by (simp_all add: state0_def startup_def row_bob_def files0_def existing_rows_def)

lemma lookup_bob_raises: "fst (lookup_row moody_net state0 row_bob) = Inl RequestException"
  by code_simp

lemma run_after_bob:
  "new_rows (run_rows moody_net still_clock state0 [(0, row_bob), (1, row_alice)]) = [out_alice]"
  by code_simp

theorem batch_survives_exceptions_witness:
  "fst (lookup_row moody_net state0 row_bob) = Inl RequestException \<and>
   run_rows moody_net still_clock state0 [(0, row_bob), (1, row_alice)] =
     run_rows moody_net still_clock
       (state0\<lparr>github_api_handler := fst (snd (lookup_row moody_net state0 row_bob)),
               env := log_line (ErrorProcessing (Profile_URL row_bob) RequestException)
                        (snd (snd (lookup_row moody_net state0 row_bob)))\<rparr>)
       [(1, row_alice)] \<and>
   new_rows (run_rows moody_net still_clock state0 [(0, row_bob), (1, row_alice)]) = [out_alice] \<and>
   attempts (snd (main03 moody_net (Some ''k1,k2'') files0 world0)) =
     [Processing ''bob'' ''https://github.com/bob'',
      Processing ''alice'' ''https://github.com/alice'']"
proof -
  note t = batch_survives_exceptions [of row_bob moody_net still_clock state0 "[]" 0
      "[(1, row_alice)]" "[]" _ "[]" "[]" "''k1,k2''" files0 world0]
  have "run_rows moody_net still_clock state0 [(0, row_bob), (1, row_alice)] =
     run_rows moody_net still_clock
       (state0\<lparr>github_api_handler := fst (snd (lookup_row moody_net state0 row_bob)),
               env := log_line (ErrorProcessing (Profile_URL row_bob) RequestException)
                        (snd (snd (lookup_row moody_net state0 row_bob)))\<rparr>)
       [(1, row_alice)]"
    using t [THEN conjunct1, rule_format, of RequestException] lookup_bob_raises
    by (simp add: run_rows_Nil state0_fields)
  moreover have "attempts (snd (main03 moody_net (Some ''k1,k2'') files0 world0)) =
     [Processing ''bob'' ''https://github.com/bob'',
      Processing ''alice'' ''https://github.com/alice'']"
    using t [THEN conjunct2, THEN conjunct2, THEN conjunct2]
    by (simp add: attempts_def world0_def files0_def row_bob_def row_alice_def)
  ultimately show ?thesis using lookup_bob_raises run_after_bob by simp
qed

lemma main02_final:
  "fst (main02 nt clk (Some ks) fs w) =
     disk (final_save (run_rows nt clk
       (startup (split_on CHR '','' ks) (fst (now clk w)) fs (snd (now clk w)))
       (enumerate 0 (input_csv fs))))"
  by (simp add: main02_def Let_def split_beta)

lemma run_rows_saved:
  "existing_rows (disk (run_rows nt clk (startup keys t0 fs w) irs)) =
     output_df (run_rows nt clk (startup keys t0 fs w) irs)"
  using run_rows_appends [OF startup_saved(1) startup_saved(2)] by blast

text \<open>
  What the runner saves, and when. When the clock read at line 141 is more than 30 minutes
  after the last save, the unsaved rows are appended to the output file, the input table
  is written to the input file, the list of unsaved rows is emptied and the time of the
  last save is read anew; otherwise nothing is written. The clock is read after a lookup
  that returns, and only then. After the loop the unsaved rows and the input table are
  written, whatever happened in the lookups: when \<^verbatim>\<open>main\<close> ends, the output file holds
  every output row and the input file holds the input table with its statuses.
\<close>

lemma periodic_and_final_save:
  "(save_interval < clk (clock_reads (env st)) - last_save_time st \<longrightarrow>
      input_csv (disk (save_progress clk st)) = input_df st \<and>
      output_csv (disk (save_progress clk st)) =
        (if new_rows st = [] then output_csv (disk st) else Some (output_df st @ new_rows st)) \<and>
      new_rows (save_progress clk st) = [] \<and>
      output_df (save_progress clk st) = output_df st @ new_rows st \<and>
      last_save_time (save_progress clk st) = clk (Suc (clock_reads (env st)))) \<and>
   (\<not> save_interval < clk (clock_reads (env st)) - last_save_time st \<longrightarrow>
      disk (save_progress clk st) = disk st \<and>
      new_rows (save_progress clk st) = new_rows st \<and>
      output_df (save_progress clk st) = output_df st \<and>
      last_save_time (save_progress clk st) = last_save_time st) \<and>
   (\<forall>email. \<not> (Status r = Some ''Done'' \<or> Profile_URL r \<in> processed_profiles st) \<and>
        fst (lookup_row nt st r) = Inr email \<longrightarrow>
      process_row nt clk st (index, r) =
        save_progress clk (record_result index r email
          (st\<lparr>github_api_handler := fst (snd (lookup_row nt st r)),
              env := snd (snd (lookup_row nt st r))\<rparr>))) \<and>
   input_csv (disk (final_save st)) = input_df st \<and>
   output_csv (disk (final_save st)) =
     (if new_rows st = [] then output_csv (disk st) else Some (output_df st @ new_rows st)) \<and>
   fst (main02 nt clk (Some ks) fs w) =
     disk (final_save (run_rows nt clk
       (startup (split_on CHR '','' ks) (fst (now clk w)) fs (snd (now clk w)))
       (enumerate 0 (input_csv fs)))) \<and>
   existing_rows (fst (main02 nt clk (Some ks) fs w)) =
     all_rows (run_rows nt clk
       (startup (split_on CHR '','' ks) (fst (now clk w)) fs (snd (now clk w)))
       (enumerate 0 (input_csv fs))) \<and>
   input_csv (fst (main02 nt clk (Some ks) fs w)) =
     input_df (run_rows nt clk
       (startup (split_on CHR '','' ks) (fst (now clk w)) fs (snd (now clk w)))
       (enumerate 0 (input_csv fs)))"
proof (intro conjI allI impI)
  assume d: "save_interval < clk (clock_reads (env st)) - last_save_time st"
  show "input_csv (disk (save_progress clk st)) = input_df st"
    and "output_csv (disk (save_progress clk st)) =
        (if new_rows st = [] then output_csv (disk st) else Some (output_df st @ new_rows st))"
    and "new_rows (save_progress clk st) = []"
    and "output_df (save_progress clk st) = output_df st @ new_rows st"
    and "last_save_time (save_progress clk st) = clk (Suc (clock_reads (env st)))"
    by (rule save_progress_due [of clk st, OF d])+
next
  assume n: "\<not> save_interval < clk (clock_reads (env st)) - last_save_time st"
  show "disk (save_progress clk st) = disk st"
    and "new_rows (save_progress clk st) = new_rows st"
    and "output_df (save_progress clk st) = output_df st"
    and "last_save_time (save_progress clk st) = last_save_time st"
    by (rule save_progress_not_due [of clk st, OF n])+
next
  fix email
  assume "\<not> (Status r = Some ''Done'' \<or> Profile_URL r \<in> processed_profiles st) \<and>
        fst (lookup_row nt st r) = Inr email"
  then show "process_row nt clk st (index, r) =
        save_progress clk (record_result index r email
          (st\<lparr>github_api_handler := fst (snd (lookup_row nt st r)),
              env := snd (snd (lookup_row nt st r))\<rparr>))"
    using process_row_return_row [of r st nt email clk index] by blast
next
  show "input_csv (disk (final_save st)) = input_df st"
    by (rule final_save_disk(1))
  show "output_csv (disk (final_save st)) =
     (if new_rows st = [] then output_csv (disk st) else Some (output_df st @ new_rows st))"
    by (rule final_save_disk(2))
  show "fst (main02 nt clk (Some ks) fs w) =
     disk (final_save (run_rows nt clk
       (startup (split_on CHR '','' ks) (fst (now clk w)) fs (snd (now clk w)))
       (enumerate 0 (input_csv fs))))"
    by (rule main02_final)
  show "existing_rows (fst (main02 nt clk (Some ks) fs w)) =
     all_rows (run_rows nt clk
       (startup (split_on CHR '','' ks) (fst (now clk w)) fs (snd (now clk w)))
       (enumerate 0 (input_csv fs)))"
    unfolding main02_final by (rule final_save_all_rows [OF run_rows_saved])
  show "input_csv (fst (main02 nt clk (Some ks) fs w)) =
     input_df (run_rows nt clk
       (startup (split_on CHR '','' ks) (fst (now clk w)) fs (snd (now clk w)))
       (enumerate 0 (input_csv fs)))"
    unfolding main02_final by (rule final_save_disk(1))
qed

lemma state1_fields:
  "clock_reads (env state1) = 0" "last_save_time state1 = 0" "new_rows state1 = [out_alice]"
  "output_df state1 = []" "input_df state1 = [row_bob, row_alice\<lparr>Status := Some ''Done''\<rparr>]"
  by (simp_all add: state1_def record_result_def state0_fields log_line_def world0_def
      out_alice_def row_alice_def)

lemma periodic_and_final_save_at_state1:
  "save_interval < late_clock (clock_reads (env state1)) - last_save_time state1 \<and>
   input_csv (disk (save_progress late_clock state1)) =
     [row_bob, row_alice\<lparr>Status := Some ''Done''\<rparr>] \<and>
   output_csv (disk (save_progress late_clock state1)) = Some [out_alice] \<and>
   new_rows (save_progress late_clock state1) = [] \<and>
   last_save_time (save_progress late_clock state1) = 1800000002"
proof -
  have d: "save_interval < late_clock (clock_reads (env state1)) - last_save_time state1"
    by (simp add: state1_fields late_clock_def save_interval_def)
  from periodic_and_final_save [of late_clock state1, THEN conjunct1, rule_format, OF d] d
  show ?thesis by (simp add: state1_fields late_clock_def)
qed

lemma after_alice:
  "new_rows (run_rows moody_net step_clock streak_start [(0, row_alice)]) = [out_alice]"
  "clock_reads (env (run_rows moody_net step_clock streak_start [(0, row_alice)])) = 2"
  "last_save_time (run_rows moody_net step_clock streak_start [(0, row_alice)]) = 0"
  by code_simp+

lemma after_streak:
  "new_rows (run_rows moody_net step_clock streak_start
     [(0, row_alice), (1, row_bob), (2, row_bob), (3, row_bob)]) = [out_alice]"
  "disk (run_rows moody_net step_clock streak_start
     [(0, row_alice), (1, row_bob), (2, row_bob), (3, row_bob)]) = files1"
  "clock_reads (env (run_rows moody_net step_clock streak_start
     [(0, row_alice), (1, row_bob), (2, row_bob), (3, row_bob)])) = 2"
  "last_save_time (run_rows moody_net step_clock streak_start
     [(0, row_alice), (1, row_bob), (2, row_bob), (3, row_bob)]) = 0"
  by code_simp+

text \<open>
  C4 fails on the code: the test of line 141 is inside the \<^verbatim>\<open>try\<close>, after the lookup, so
  a lookup that raises skips it. Here the first row resolves while the clock still shows
  0; from then on the clock shows more than 30 minutes since the last save, and the next
  three lookups raise: the clock is not read again, nothing is written to either file and
  the resolved row stays unsaved during the whole streak.
\<close>

theorem overdue_save_skipped:
  "enumerate 0 (input_csv files1) = [(0, row_alice), (1, row_bob), (2, row_bob), (3, row_bob)] \<and>
   new_rows (run_rows moody_net step_clock streak_start [(0, row_alice)]) = [out_alice] \<and>
   save_interval <
     step_clock (clock_reads (env (run_rows moody_net step_clock streak_start [(0, row_alice)])))
       - last_save_time (run_rows moody_net step_clock streak_start [(0, row_alice)]) \<and>
   new_rows (run_rows moody_net step_clock streak_start
     [(0, row_alice), (1, row_bob), (2, row_bob), (3, row_bob)]) = [out_alice] \<and>
   disk (run_rows moody_net step_clock streak_start
     [(0, row_alice), (1, row_bob), (2, row_bob), (3, row_bob)]) = files1 \<and>
   output_csv files1 = None \<and>
   clock_reads (env (run_rows moody_net step_clock streak_start
     [(0, row_alice), (1, row_bob), (2, row_bob), (3, row_bob)])) =
     clock_reads (env (run_rows moody_net step_clock streak_start [(0, row_alice)])) \<and>
   save_interval <
     step_clock (clock_reads (env (run_rows moody_net step_clock streak_start
         [(0, row_alice), (1, row_bob), (2, row_bob), (3, row_bob)])))
       - last_save_time (run_rows moody_net step_clock streak_start
           [(0, row_alice), (1, row_bob), (2, row_bob), (3, row_bob)])"
  unfolding after_alice after_streak
  by (simp add: step_clock_def save_interval_def files1_def)

lemma process_row_changes:
  assumes "\<not> (Status r = Some ''Done'' \<or> Profile_URL r \<in> processed_profiles st)"
  shows "process_row nt clk st (index, r) \<noteq> st"
proof
  assume "process_row nt clk st (index, r) = st"
  then have "attempts (env (process_row nt clk st (index, r))) = attempts (env st)" by simp
  with assms show False by (simp add: process_row_attempts)
qed

lemma main02_distinct:
  assumes "distinct (map out_Profile_URL (existing_rows fs))"
  shows "distinct (map out_Profile_URL (existing_rows (fst (main02 nt clk keys_env fs w))))"
proof -
  from main02_appends [of nt clk keys_env fs w] obtain added where
    "existing_rows (fst (main02 nt clk keys_env fs w)) = existing_rows fs @ added"
    "distinct (map out_Profile_URL added)"
    "set (map out_Profile_URL added) \<inter> set (map out_Profile_URL (existing_rows fs)) = {}"
    by blast
  with assms show ?thesis by auto
qed

lemma run_twice_fst:
  "fst (run_twice nt1 clk1 nt2 clk2 keys_env fs w) =
     fst (main02 nt2 clk2 keys_env (fst (main02 nt1 clk1 keys_env fs w))
            (snd (main02 nt1 clk1 keys_env fs w)))"
  by (simp add: run_twice_def split_beta)

text \<open>
  C5. The loop leaves a row untouched exactly when its status is \<^verbatim>\<open>Done\<close> or its
  profile is in the set of processed profiles. A second run that starts from the files of
  a first run only appends to the output file: the rows it appends have pairwise different
  profiles, none of which was in the file, and each comes from an input row that was not
  marked \<^verbatim>\<open>Done\<close>. Profiles that were pairwise different stay so.
\<close>

theorem restart_is_idempotent:
  "((process_row nt clk st (index, r) = st) =
      (Status r = Some ''Done'' \<or> Profile_URL r \<in> processed_profiles st)) \<and>
   (\<exists>added.
      existing_rows (fst (run_twice nt1 clk1 nt2 clk2 keys_env fs w)) =
        existing_rows (fst (main02 nt1 clk1 keys_env fs w)) @ added \<and>
      distinct (map out_Profile_URL added) \<and>
      set (map out_Profile_URL added) \<inter>
        set (map out_Profile_URL (existing_rows (fst (main02 nt1 clk1 keys_env fs w)))) = {} \<and>
      (\<forall>x\<in>set added. \<exists>r\<in>set (input_csv (fst (main02 nt1 clk1 keys_env fs w))).
         Profile_URL r = out_Profile_URL x \<and> Status r \<noteq> Some ''Done'')) \<and>
   (distinct (map out_Profile_URL (existing_rows fs)) \<longrightarrow>
      distinct (map out_Profile_URL
        (existing_rows (fst (run_twice nt1 clk1 nt2 clk2 keys_env fs w)))))"
proof (intro conjI impI)
  show "(process_row nt clk st (index, r) = st) =
      (Status r = Some ''Done'' \<or> Profile_URL r \<in> processed_profiles st)"
    using process_row_skip [of r st nt clk index] process_row_changes [of r st nt clk index]
    by blast
  show "\<exists>added.
      existing_rows (fst (run_twice nt1 clk1 nt2 clk2 keys_env fs w)) =
        existing_rows (fst (main02 nt1 clk1 keys_env fs w)) @ added \<and>
      distinct (map out_Profile_URL added) \<and>
      set (map out_Profile_URL added) \<inter>
        set (map out_Profile_URL (existing_rows (fst (main02 nt1 clk1 keys_env fs w)))) = {} \<and>
      (\<forall>x\<in>set added. \<exists>r\<in>set (input_csv (fst (main02 nt1 clk1 keys_env fs w))).
         Profile_URL r = out_Profile_URL x \<and> Status r \<noteq> Some ''Done'')"
    unfolding run_twice_fst by (rule main02_appends)
  assume "distinct (map out_Profile_URL (existing_rows fs))"
  then show "distinct (map out_Profile_URL
        (existing_rows (fst (run_twice nt1 clk1 nt2 clk2 keys_env fs w))))"
    unfolding run_twice_fst by (intro main02_distinct)
qed

lemma first_run_rows:
  "existing_rows (fst (main02 moody_net still_clock (Some ''k1,k2'') files0 world0)) = [out_alice]"
  by code_simp

lemma second_run_rows:
  "existing_rows (fst (run_twice moody_net still_clock moody_net still_clock
     (Some ''k1,k2'') files0 world0)) = [out_alice]"
  by code_simp

theorem restart_is_idempotent_witness:
  "process_row moody_net still_clock state0 (1, row_alice\<lparr>Status := Some ''Done''\<rparr>) = state0 \<and>
   distinct (map out_Profile_URL (existing_rows files0)) \<and>
   existing_rows (fst (run_twice moody_net still_clock moody_net still_clock
     (Some ''k1,k2'') files0 world0)) =
     existing_rows (fst (main02 moody_net still_clock (Some ''k1,k2'') files0 world0)) \<and>
   distinct (map out_Profile_URL (existing_rows (fst (run_twice moody_net still_clock
     moody_net still_clock (Some ''k1,k2'') files0 world0))))"
proof -
  note t = restart_is_idempotent [of moody_net still_clock state0 1
      "row_alice\<lparr>Status := Some ''Done''\<rparr>" moody_net still_clock moody_net still_clock
      "Some ''k1,k2''" files0 world0]
  have d: "distinct (map out_Profile_URL (existing_rows files0))"
    by (simp add: existing_rows_def files0_def)
  from t [THEN conjunct1]
  have "process_row moody_net still_clock state0 (1, row_alice\<lparr>Status := Some ''Done''\<rparr>) = state0"
    by simp
  moreover from t [THEN conjunct2, THEN conjunct2] d
  have "distinct (map out_Profile_URL (existing_rows (fst (run_twice moody_net still_clock
     moody_net still_clock (Some ''k1,k2'') files0 world0))))"
    by blast
  ultimately show ?thesis using d first_run_rows second_run_rows by simp
qed

end
